theory Spec2Isabelle
  imports Complex_Main
begin

section \<open>Exceptions\<close>

text \<open>
  Every \<^verbatim>\<open>raise\<close>, failed \<^verbatim>\<open>assert\<close> and library failure of
  \<^verbatim>\<open>diffusion_policy/dataset/sapien_dataset.py\<close> is a value of \<open>exn\<close>; whatever can
  fail returns \<open>exn + 'a\<close> with \<open>Inl\<close> for the exception. \<open>OutsideModel\<close> marks the one
  situation whose outcome this development does not describe (see \<open>require_dataset\<close>).
\<close>

datatype exn =
    AssertionError
  | KeyError string
  | IndexError
  | ValueError
  | TypeError
  | RuntimeError string
  | FileNotFoundError string
  | NotADirectoryError string
  | OSError string
  | OutsideModel string

section \<open>The cache manager: \<^verbatim>\<open>SapienDataset.__init__\<close>, lines 214--249\<close>

text \<open>
  The only path of the file system that the constructor touches is
  \<^verbatim>\<open>cache_zarr_path = dataset_dir/cache.zarr.zip\<close>. A path is absent, a regular file or a
  directory. \<^verbatim>\<open>zarr.ZipStore(path)\<close> opens a zip file for writing, so what it leaves at the
  path is a regular file; its content is either a completely serialised store or the
  remains of an interrupted serialisation.
\<close>

datatype 's archive = Complete 's | Partial

datatype 's fs_node = Absent | RegularFile "'s archive" | Directory

text \<open>
  \<^verbatim>\<open>shutil.rmtree(path)\<close> of the Python standard library removes a directory tree. It
  raises \<^verbatim>\<open>FileNotFoundError\<close> for a path that does not exist and
  \<^verbatim>\<open>NotADirectoryError\<close> for a path that is a regular file; in both cases nothing is
  removed.
\<close>

fun shutil_rmtree :: "string \<Rightarrow> 's fs_node \<Rightarrow> exn + 's fs_node" where
  "shutil_rmtree p Absent = Inl (FileNotFoundError p)"
| "shutil_rmtree p (RegularFile a) = Inl (NotADirectoryError p)"
| "shutil_rmtree p Directory = Inr Absent"

text \<open>\<^verbatim>\<open>os.path.exists\<close>.\<close>

fun os_path_exists :: "'s fs_node \<Rightarrow> bool" where
  "os_path_exists Absent = False"
| "os_path_exists _ = True"

text \<open>
  The handler of lines 235--237:
  \<^verbatim>\<open>except Exception as e: shutil.rmtree(cache_zarr_path); raise e\<close>.
  An exception raised by \<^verbatim>\<open>rmtree\<close> inside the handler replaces \<open>e\<close>.
\<close>

definition cache_except :: "string \<Rightarrow> exn \<Rightarrow> 's fs_node \<Rightarrow> (exn + 's) \<times> 's fs_node" where
  "cache_except p e node =
     (case shutil_rmtree p node of
        Inl e' \<Rightarrow> (Inl e', node)
      | Inr node' \<Rightarrow> (Inl e, node'))"

text \<open>
  The \<^verbatim>\<open>use_cache\<close> branch of the constructor, lines 215--243, as a function of the node at
  \<^verbatim>\<open>cache_zarr_path\<close>; it returns the replay buffer or the exception, and the node that is
  left at the path. The collaborators are parameters:
  \<^item> \<open>build\<close>: the outcome of \<^verbatim>\<open>_convert_sapein_to_dp_replay\<close> (lines 225--229);
  \<^item> \<open>zip_open\<close>: \<^verbatim>\<open>zarr.ZipStore(cache_zarr_path)\<close> (line 231) either fails, leaving the
    path as it was, or creates the file;
  \<^item> \<open>save\<close>: \<^verbatim>\<open>replay_buffer.save_to_store\<close> (lines 232--234); when it raises, the
    \<^verbatim>\<open>with\<close> block closes the zip file, which stays on disk with what was written;
  \<^item> \<open>load\<close>: \<^verbatim>\<open>ReplayBuffer.copy_from_store\<close> on the existing archive (lines 240--242).
  The file lock of line 219 serialises callers and has no effect within one call.
\<close>

definition cache_get_or_build ::
  "string \<Rightarrow> (exn + 's) \<Rightarrow> exn option \<Rightarrow> ('s \<Rightarrow> exn option) \<Rightarrow> ('s fs_node \<Rightarrow> exn + 's)
     \<Rightarrow> 's fs_node \<Rightarrow> (exn + 's) \<times> 's fs_node" where
  "cache_get_or_build p build zip_open save load node =
     (if \<not> os_path_exists node then
        (case build of
           Inl e \<Rightarrow> cache_except p e node
         | Inr rb \<Rightarrow>
             (case zip_open of
                Some e \<Rightarrow> cache_except p e node
              | None \<Rightarrow>
                  (case save rb of
                     Some e \<Rightarrow> cache_except p e (RegularFile Partial)
                   | None \<Rightarrow> (Inr rb, RegularFile (Complete rb)))))
      else (load node, node))"

section \<open>Arrays\<close>

text \<open>
  A numpy array: its shape and its entries in row-major (C) order. A well-formed array has
  as many entries as the product of its shape. The rows of an array are its slices along the
  last axis, in order.
\<close>

record 'a ndarray =
  shape :: "nat list"
  flat :: "'a list"

definition wf_array :: "'a ndarray \<Rightarrow> bool" where
  "wf_array a \<longleftrightarrow> length (flat a) = prod_list (shape a)"

definition rows :: "'a ndarray \<Rightarrow> 'a list list" where
  "rows a =
     map (\<lambda>i. take (last (shape a)) (drop (i * last (shape a)) (flat a)))
       [0 ..< prod_list (butlast (shape a))]"

text \<open>
  \<^verbatim>\<open>a[..., lo:hi]\<close> for an array of at least one dimension and \<open>lo \<le> hi\<close>: the bounds are
  clipped to the width of the last axis.
\<close>

definition slice_last :: "nat \<Rightarrow> nat \<Rightarrow> 'a ndarray \<Rightarrow> 'a ndarray" where
  "slice_last lo hi a =
     \<lparr>shape = butlast (shape a) @ [min hi (last (shape a)) - min lo (last (shape a))],
      flat = concat (map (\<lambda>r. take (hi - lo) (drop lo r)) (rows a))\<rparr>"

text \<open>\<^verbatim>\<open>a[..., lo:]\<close>.\<close>

definition slice_last_from :: "nat \<Rightarrow> 'a ndarray \<Rightarrow> 'a ndarray" where
  "slice_last_from lo a = slice_last lo (max lo (last (shape a))) a"

text \<open>
  \<^verbatim>\<open>a.reshape(-1, d1, ..., dn)\<close>: numpy raises \<^verbatim>\<open>ValueError\<close> when the product of the
  known dimensions is zero or does not divide the size; the entries keep their order.
\<close>

definition reshape_neg1 :: "nat list \<Rightarrow> 'a ndarray \<Rightarrow> exn + 'a ndarray" where
  "reshape_neg1 dims a =
     (if prod_list dims = 0 \<or> prod_list (shape a) mod prod_list dims \<noteq> 0 then Inl ValueError
      else Inr \<lparr>shape = (prod_list (shape a) div prod_list dims) # dims, flat = flat a\<rparr>)"

text \<open>
  \<^verbatim>\<open>np.concatenate([p, r, g], axis=-1)\<close>: the arrays must have the same number of
  dimensions, at least one, and agree on all but the last; otherwise \<^verbatim>\<open>ValueError\<close>.
\<close>

definition concatenate_last :: "'a ndarray \<Rightarrow> 'a ndarray \<Rightarrow> 'a ndarray \<Rightarrow> exn + 'a ndarray" where
  "concatenate_last p r g =
     (if shape p = [] \<or> shape r = [] \<or> shape g = []
         \<or> butlast (shape r) \<noteq> butlast (shape p) \<or> butlast (shape g) \<noteq> butlast (shape p)
      then Inl ValueError
      else Inr \<lparr>shape = butlast (shape p) @ [last (shape p) + last (shape r) + last (shape g)],
                flat = concat (map (\<lambda>(a, b, c). a @ b @ c) (zip (rows p) (zip (rows r) (rows g))))\<rparr>)"

text \<open>\<^verbatim>\<open>a.astype(dtype)\<close> with the cast of one entry as a parameter.\<close>

definition astype :: "('a \<Rightarrow> 'b) \<Rightarrow> 'a ndarray \<Rightarrow> 'b ndarray" where
  "astype cast a = \<lparr>shape = shape a, flat = map cast (flat a)\<rparr>"

section \<open>The action canonicalizer: \<^verbatim>\<open>_convert_actions\<close>, lines 46--64\<close>

text \<open>
  \<open>fwd\<close> is \<^verbatim>\<open>rotation_transformer.forward\<close>, a collaborator that maps an array to an array or
  raises; \<open>f32\<close> is the cast of one entry to \<^verbatim>\<open>np.float32\<close>. \<^verbatim>\<open>raw_actions.shape[-1]\<close> raises
  \<^verbatim>\<open>IndexError\<close> on an array without dimensions.
\<close>

definition convert_actions ::
  "('a ndarray \<Rightarrow> exn + 'a ndarray) \<Rightarrow> ('a \<Rightarrow> 'a) \<Rightarrow> 'a ndarray \<Rightarrow> exn + 'a ndarray" where
  "convert_actions fwd f32 raw_actions =
     (if shape raw_actions = [] then Inl IndexError
      else
        (case (if last (shape raw_actions) = 14
               then map_sum id (\<lambda>a. (a, True)) (reshape_neg1 [2, 7] raw_actions)
               else Inr (raw_actions, False)) of
           Inl e \<Rightarrow> Inl e
         | Inr (raw_actions, is_dual_arm) \<Rightarrow>
             (let pos = slice_last 0 3 raw_actions;
                  rot = slice_last 3 6 raw_actions;
                  gripper = slice_last_from 6 raw_actions
              in case fwd rot of
                   Inl e \<Rightarrow> Inl e
                 | Inr rot \<Rightarrow>
                     (case concatenate_last pos rot gripper of
                        Inl e \<Rightarrow> Inl e
                      | Inr cat \<Rightarrow>
                          (let raw_actions = astype f32 cat
                           in if is_dual_arm then reshape_neg1 [20] raw_actions
                              else Inr raw_actions)))))"

text \<open>
  What the description of the canonicalizer says, row by row (these definitions follow the
  description, not the code). \<open>conv\<close> converts the three angles of one arm into \<open>k\<close> numbers.
  One arm is seven numbers: position, angles, gripper. A row of fourteen numbers is two arms,
  canonicalized one after the other into one row.
\<close>

definition canonical_arm :: "('a list \<Rightarrow> 'a list) \<Rightarrow> ('a \<Rightarrow> 'a) \<Rightarrow> 'a list \<Rightarrow> 'a list" where
  "canonical_arm conv f32 arm = map f32 (take 3 arm @ conv (take 3 (drop 3 arm)) @ drop 6 arm)"

definition canonical_row :: "('a list \<Rightarrow> 'a list) \<Rightarrow> ('a \<Rightarrow> 'a) \<Rightarrow> 'a list \<Rightarrow> 'a list" where
  "canonical_row conv f32 row =
     (if length row = 14
      then canonical_arm conv f32 (take 7 row) @ canonical_arm conv f32 (drop 7 row)
      else canonical_arm conv f32 row)"

definition canonicalize_spec ::
  "nat \<Rightarrow> ('a list \<Rightarrow> 'a list) \<Rightarrow> ('a \<Rightarrow> 'a) \<Rightarrow> 'a ndarray \<Rightarrow> 'a ndarray" where
  "canonicalize_spec k conv f32 raw =
     \<lparr>shape = (if last (shape raw) = 14 then [prod_list (butlast (shape raw)), 2 * (3 + k + 1)]
               else butlast (shape raw) @ [3 + k + 1]),
      flat = concat (map (canonical_row conv f32) (rows raw))\<rparr>"

text \<open>
  The contract of a rotation transformer that converts each row of three angles with \<open>conv\<close>
  into \<open>k\<close> numbers: on a well-formed array whose last axis has width three it returns the
  array of the converted rows.
\<close>

definition map_rows :: "nat \<Rightarrow> ('a list \<Rightarrow> 'a list) \<Rightarrow> 'a ndarray \<Rightarrow> 'a ndarray" where
  "map_rows k conv a = \<lparr>shape = butlast (shape a) @ [k], flat = concat (map conv (rows a))\<rparr>"

definition acts_rowwise ::
  "('a ndarray \<Rightarrow> exn + 'a ndarray) \<Rightarrow> nat \<Rightarrow> ('a list \<Rightarrow> 'a list) \<Rightarrow> bool" where
  "acts_rowwise fwd k conv \<longleftrightarrow>
     (\<forall>v. length v = 3 \<longrightarrow> length (conv v) = k) \<and>
     (\<forall>a. wf_array a \<and> shape a \<noteq> [] \<and> last (shape a) = 3 \<longrightarrow> fwd a = Inr (map_rows k conv a))"

text \<open>
  Concrete inputs: the array of shape \<open>(n, d)\<close> with entries \<open>0, 1, 2, \<dots>\<close>, a converter with four
  outputs, one with six, and the transformer that applies a converter to every row.
\<close>

definition example_actions :: "nat \<Rightarrow> nat \<Rightarrow> int ndarray" where
  "example_actions n d = \<lparr>shape = [n, d], flat = map int [0 ..< n * d]\<rparr>"

definition quat_like :: "int list \<Rightarrow> int list" where
  "quat_like v = 0 # v"

definition six_like :: "int list \<Rightarrow> int list" where
  "six_like v = v @ map uminus v"

definition rowwise :: "nat \<Rightarrow> ('a list \<Rightarrow> 'a list) \<Rightarrow> 'a ndarray \<Rightarrow> exn + 'a ndarray" where
  "rowwise k conv a = Inr (map_rows k conv a)"

section \<open>The normalization provider: \<^verbatim>\<open>normalizer_from_stat\<close> and \<^verbatim>\<open>get_normalizer\<close>\<close>

text \<open>
  The statistics dictionary that \<^verbatim>\<open>array_to_stats\<close> returns: per-dimension minimum, maximum,
  mean and standard deviation, each a flat array. Floating-point numbers are idealised as
  reals (no rounding, no NaN); the one non-finite value that the code can produce from finite
  statistics, the quotient \<^verbatim>\<open>1/0\<close> of numpy scalars, is kept as \<open>PosInf\<close>.
\<close>

record stat =
  stat_min :: "real list"
  stat_max :: "real list"
  stat_mean :: "real list"
  stat_std :: "real list"

datatype npfloat = Fin real | PosInf

text \<open>\<^verbatim>\<open>1/max_abs\<close> for a numpy scalar \<open>max_abs \<ge> 0\<close>: division by zero gives \<^verbatim>\<open>inf\<close>.\<close>

definition np_recip :: "real \<Rightarrow> npfloat" where
  "np_recip x = (if x = 0 then PosInf else Fin (1 / x))"

text \<open>\<^verbatim>\<open>ndarray.max()\<close>: the largest entry; numpy raises \<^verbatim>\<open>ValueError\<close> on an empty array.\<close>

definition amax :: "real list \<Rightarrow> exn + real" where
  "amax xs = (case xs of [] \<Rightarrow> Inl ValueError | x # ys \<Rightarrow> Inr (fold max ys x))"

text \<open>
  The normalizers are values of collaborators that are not part of this file
  (\<^verbatim>\<open>SingleFieldLinearNormalizer.create_manual\<close>, \<^verbatim>\<open>get_range_normalizer_from_stat\<close>,
  \<^verbatim>\<open>get_identity_normalizer_from_stat\<close>, \<^verbatim>\<open>get_image_range_normalizer\<close>); each is
  represented by the call that made it, with its arguments.
\<close>

datatype normalizer =
    CreateManual (scale: "npfloat list") (offset: "npfloat list") (input_stats: stat)
  | RangeNormalizerFromStat stat
  | IdentityNormalizerFromStat stat
  | ImageRangeNormalizer

text \<open>Lines 36--44.\<close>

definition normalizer_from_stat :: "stat \<Rightarrow> exn + normalizer" where
  "normalizer_from_stat st =
     (case amax (stat_max st) of
        Inl e \<Rightarrow> Inl e
      | Inr mx \<Rightarrow>
          (case amax (map abs (stat_min st)) of
             Inl e \<Rightarrow> Inl e
           | Inr mn \<Rightarrow>
               (let max_abs = max mx mn;
                    scale = replicate (length (stat_max st)) (np_recip max_abs);
                    offset = replicate (length (stat_max st)) (Fin 0)
                in Inr (CreateManual scale offset st))))"

text \<open>\<^verbatim>\<open>str.endswith\<close>.\<close>

definition endswith :: "string \<Rightarrow> string \<Rightarrow> bool" where
  "endswith s suf = (length suf \<le> length s \<and> drop (length s - length suf) s = suf)"

text \<open>
  The fields of \<^verbatim>\<open>self\<close> that \<^verbatim>\<open>get_normalizer\<close> reads. \<^verbatim>\<open>self.replay_buffer[key]\<close> raises
  \<^verbatim>\<open>KeyError\<close> for a key that the buffer does not hold.
\<close>

record 'arr sapien_dataset =
  replay_buffer :: "string \<rightharpoonup> 'arr"
  lowdim_keys :: "string list"
  rgb_keys :: "string list"
  use_legacy_normalizer :: bool

text \<open>
  The loop of lines 313--325 over \<^verbatim>\<open>self.lowdim_keys\<close>; \<open>ats\<close> is \<^verbatim>\<open>array_to_stats\<close>, a
  collaborator that may raise (an array without rows has no minimum).
\<close>

fun obs_normalizers ::
  "('arr \<Rightarrow> exn + stat) \<Rightarrow> (string \<rightharpoonup> 'arr) \<Rightarrow> string list \<Rightarrow> (string \<rightharpoonup> normalizer)
     \<Rightarrow> exn + (string \<rightharpoonup> normalizer)" where
  "obs_normalizers ats rb [] nz = Inr nz"
| "obs_normalizers ats rb (key # keys) nz =
     (case rb key of
        None \<Rightarrow> Inl (KeyError key)
      | Some arr \<Rightarrow>
          (case ats arr of
             Inl e \<Rightarrow> Inl e
           | Inr st \<Rightarrow>
               if endswith key ''pos'' then
                 obs_normalizers ats rb keys (nz(key \<mapsto> RangeNormalizerFromStat st))
               else if endswith key ''quat'' then
                 obs_normalizers ats rb keys (nz(key \<mapsto> IdentityNormalizerFromStat st))
               else if endswith key ''qpos'' then
                 obs_normalizers ats rb keys (nz(key \<mapsto> RangeNormalizerFromStat st))
               else Inl (RuntimeError ''unsupported'')))"

text \<open>The loop of lines 328--329 over \<^verbatim>\<open>self.rgb_keys\<close>.\<close>

fun image_normalizers :: "string list \<Rightarrow> (string \<rightharpoonup> normalizer) \<Rightarrow> (string \<rightharpoonup> normalizer)" where
  "image_normalizers [] nz = nz"
| "image_normalizers (key # keys) nz = image_normalizers keys (nz(key \<mapsto> ImageRangeNormalizer))"

text \<open>Lines 301--330.\<close>

definition get_normalizer ::
  "('arr \<Rightarrow> exn + stat) \<Rightarrow> 'arr sapien_dataset \<Rightarrow> exn + (string \<rightharpoonup> normalizer)" where
  "get_normalizer ats self =
     (case replay_buffer self ''action'' of
        None \<Rightarrow> Inl (KeyError ''action'')
      | Some arr \<Rightarrow>
          (case ats arr of
             Inl e \<Rightarrow> Inl e
           | Inr st \<Rightarrow>
               if use_legacy_normalizer self then
                 (case normalizer_from_stat st of
                    Inl e \<Rightarrow> Inl e
                  | Inr this_normalizer \<Rightarrow>
                      (case obs_normalizers ats (replay_buffer self) (lowdim_keys self)
                              (Map.empty(''action'' \<mapsto> this_normalizer)) of
                         Inl e \<Rightarrow> Inl e
                       | Inr nz \<Rightarrow> Inr (image_normalizers (rgb_keys self) nz)))
               else Inl (RuntimeError ''unsupported'')))"

text \<open>
  The scale that the sentence about the action normalizer describes, read dimension by
  dimension (this definition follows the sentence, not the code): entry \<open>d\<close> is
  \<open>1 / max \<bar>min\<^sub>d\<bar> \<bar>max\<^sub>d\<bar>\<close>.
\<close>

definition per_dimension_scale :: "stat \<Rightarrow> npfloat list" where
  "per_dimension_scale st =
     map (\<lambda>(mn, mx). np_recip (max \<bar>mn\<bar> \<bar>mx\<bar>)) (zip (stat_min st) (stat_max st))"

text \<open>Concrete statistics and a concrete dataset object, used to evaluate \<open>get_normalizer\<close>.\<close>

definition example_stat :: "nat \<Rightarrow> stat" where
  "example_stat n =
     \<lparr>stat_min = [-1, - real n - 2], stat_max = [1, real n + 2], stat_mean = [0, 0], stat_std = [1, 1]\<rparr>"

definition example_dataset :: "bool \<Rightarrow> string list \<Rightarrow> nat sapien_dataset" where
  "example_dataset legacy keys =
     \<lparr>replay_buffer = [''action'' \<mapsto> 0, ''ee_pos'' \<mapsto> 1, ''ee_quat'' \<mapsto> 2, ''ee_vel'' \<mapsto> 3],
      lowdim_keys = keys, rgb_keys = [''front_view_color''],
      use_legacy_normalizer = legacy\<rparr>"

section \<open>The inputs of the store builder\<close>

text \<open>
  \<^verbatim>\<open>shape_meta\<close>: the dictionary \<^verbatim>\<open>shape_meta['obs']\<close> in insertion order (its keys are distinct),
  each entry with its \<^verbatim>\<open>shape\<close> and its optional \<^verbatim>\<open>type\<close>, and \<^verbatim>\<open>shape_meta['action']['shape']\<close>,
  which is read only by the assertion of line 118 and raises \<^verbatim>\<open>KeyError\<close> there when the
  dictionary has no \<^verbatim>\<open>action\<close> entry. Declared shapes are tuples of natural numbers.
\<close>

record attr =
  attr_shape :: "nat list"
  attr_type :: "string option"

record shape_meta =
  obs :: "(string \<times> attr) list"
  action :: "nat list option"

text \<open>\<^verbatim>\<open>attr.get('type', 'low_dim')\<close> and the two key lists of lines 75--85.\<close>

definition obs_type :: "attr \<Rightarrow> string" where
  "obs_type a = (case attr_type a of None \<Rightarrow> ''low_dim'' | Some t \<Rightarrow> t)"

definition parse_rgb_keys :: "shape_meta \<Rightarrow> string list" where
  "parse_rgb_keys sm = map fst (filter (\<lambda>(key, a). obs_type a = ''rgb'') (obs sm))"

definition parse_lowdim_keys :: "shape_meta \<Rightarrow> string list" where
  "parse_lowdim_keys sm =
     map fst (filter (\<lambda>(key, a). obs_type a \<noteq> ''rgb'' \<and> obs_type a = ''low_dim'') (obs sm))"

text \<open>
  One episode file: its numeric datasets by path (\<^verbatim>\<open>cartesian_action\<close>,
  \<^verbatim>\<open>observations/<key>\<close>) and its image datasets by camera name
  (\<^verbatim>\<open>file['observations']['images'][key]\<close>), an image dataset being the list of its frames.
  Indexing a missing path raises \<^verbatim>\<open>KeyError\<close>.
\<close>

record ('a, 'p) h5file =
  datasets :: "string \<rightharpoonup> 'a ndarray"
  images :: "string \<rightharpoonup> 'p ndarray list"

text \<open>
  The source directory: its entries by name (the names are distinct); an entry is an episode
  file or something that \<^verbatim>\<open>h5py.File\<close> cannot open.
\<close>

type_synonym ('a, 'p) directory = "(string \<times> ('a, 'p) h5file option) list"

text \<open>
  \<^verbatim>\<open>glob.glob(os.path.join(dataset_dir, 'episode_*.hdf5'))\<close>: the entries whose name starts with
  \<^verbatim>\<open>episode_\<close> and ends with \<^verbatim>\<open>.hdf5\<close>, the star matching any string, also the empty one.
\<close>

definition matches_episode_pattern :: "string \<Rightarrow> bool" where
  "matches_episode_pattern name \<longleftrightarrow>
     13 \<le> length name \<and> take 8 name = ''episode_'' \<and> endswith name ''.hdf5''"

definition glob_episodes :: "('a, 'p) directory \<Rightarrow> string list" where
  "glob_episodes dir = filter matches_episode_pattern (map fst dir)"

text \<open>The decimal digits of a natural number, as the f-string \<^verbatim>\<open>f'episode_{epi_idx}.hdf5'\<close> prints it.\<close>

definition digit_char :: "nat \<Rightarrow> char" where
  "digit_char d = char_of (48 + d)"

function str_nat :: "nat \<Rightarrow> string" where
  "str_nat n = (if n < 10 then [digit_char n] else str_nat (n div 10) @ [digit_char (n mod 10)])"
  by pat_completeness auto
termination
  by (relation "measure id") auto

definition episode_name :: "nat \<Rightarrow> string" where
  "episode_name epi_idx = ''episode_'' @ str_nat epi_idx @ ''.hdf5''"

text \<open>
  \<^verbatim>\<open>h5py.File(dataset_path)\<close>: \<^verbatim>\<open>FileNotFoundError\<close> for a name that is not in the directory,
  \<^verbatim>\<open>OSError\<close> for an entry that is not an episode file.
\<close>

definition h5py_File :: "('a, 'p) directory \<Rightarrow> string \<Rightarrow> exn + ('a, 'p) h5file" where
  "h5py_File dir name =
     (case map_of dir name of
        None \<Rightarrow> Inl (FileNotFoundError name)
      | Some None \<Rightarrow> Inl (OSError name)
      | Some (Some file) \<Rightarrow> Inr file)"

text \<open>
  What the specification calls a file-open error (this definition follows its words): the
  two exceptions that \<open>h5py_File\<close> raises.
\<close>

fun file_open_error :: "exn \<Rightarrow> bool" where
  "file_open_error (FileNotFoundError name) \<longleftrightarrow> True"
| "file_open_error (OSError name) \<longleftrightarrow> True"
| "file_open_error e \<longleftrightarrow> False"

text \<open>
  The collaborators of the builder that are not part of this file: the rotation transformer,
  the cast to float32, \<^verbatim>\<open>cv2.resize\<close> (its second argument is \<open>(w, h)\<close>), the image codec
  (\<open>None\<close> when encoding or decoding raises), the checks that the constructor
  \<^verbatim>\<open>ReplayBuffer(root)\<close> may make, and \<^verbatim>\<open>multiprocessing.cpu_count()\<close>.
\<close>

record ('a, 'p, 'e, 's) externals =
  rot_forward :: "'a ndarray \<Rightarrow> exn + 'a ndarray"
  float32 :: "'a \<Rightarrow> 'a"
  cv2_resize :: "'p ndarray \<Rightarrow> nat \<times> nat \<Rightarrow> exn + 'p ndarray"
  jpeg2k_encode :: "'p ndarray \<Rightarrow> 'e option"
  jpeg2k_decode :: "'e \<Rightarrow> 'p ndarray option"
  replay_buffer_check :: "'s \<Rightarrow> exn option"
  cpu_count :: int

section \<open>Reading the episodes: lines 91--132\<close>

text \<open>
  The two dictionaries of lists, in insertion order.
  \<^verbatim>\<open>if key not in d: d[key] = list()\<close> followed by \<^verbatim>\<open>d[key].append(v)\<close>:
\<close>

fun dict_append :: "'k \<Rightarrow> 'v \<Rightarrow> ('k \<times> 'v list) list \<Rightarrow> ('k \<times> 'v list) list" where
  "dict_append k v [] = [(k, [v])]"
| "dict_append k v ((k', vs) # d) =
     (if k = k' then (k', vs @ [v]) # d else (k', vs) # dict_append k v d)"

text \<open>The state of the loop over the episodes.\<close>

record ('a, 'p) loader =
  episode_ends :: "nat list"
  prev_end :: nat
  lowdim_data_dict :: "(string \<times> 'a ndarray list) list"
  rgb_data_dict :: "(string \<times> 'p ndarray list list) list"

definition data_key :: "string \<Rightarrow> string" where
  "data_key key = (if key = ''action'' then ''cartesian_action'' else ''observations/'' @ key)"

text \<open>The body of the loop of line 106 for one key, lines 107--121.\<close>

definition load_lowdim_key ::
  "('a, 'p, 'e, 's) externals \<Rightarrow> shape_meta \<Rightarrow> ('a, 'p) h5file \<Rightarrow> nat \<Rightarrow> string
     \<Rightarrow> (string \<times> 'a ndarray list) list \<Rightarrow> exn + (string \<times> 'a ndarray list) list" where
  "load_lowdim_key ext sm file episode_length key d =
     (case datasets file (data_key key) of
        None \<Rightarrow> Inl (KeyError (data_key key))
      | Some this_data \<Rightarrow>
          if key = ''action'' then
            (case convert_actions (rot_forward ext) (float32 ext) this_data of
               Inl e \<Rightarrow> Inl e
             | Inr this_data \<Rightarrow>
                 (case action sm of
                    None \<Rightarrow> Inl (KeyError ''action'')
                  | Some sh \<Rightarrow>
                      if shape this_data = episode_length # sh
                      then Inr (dict_append key this_data d)
                      else Inl AssertionError))
          else
            (case map_of (obs sm) key of
               None \<Rightarrow> Inl (KeyError key)
             | Some a \<Rightarrow>
                 if shape this_data = episode_length # attr_shape a
                 then Inr (dict_append key this_data d)
                 else Inl AssertionError))"

fun load_lowdim ::
  "('a, 'p, 'e, 's) externals \<Rightarrow> shape_meta \<Rightarrow> ('a, 'p) h5file \<Rightarrow> nat \<Rightarrow> string list
     \<Rightarrow> (string \<times> 'a ndarray list) list \<Rightarrow> exn + (string \<times> 'a ndarray list) list" where
  "load_lowdim ext sm file episode_length [] d = Inr d"
| "load_lowdim ext sm file episode_length (key # keys) d =
     (case load_lowdim_key ext sm file episode_length key d of
        Inl e \<Rightarrow> Inl e
      | Inr d' \<Rightarrow> load_lowdim ext sm file episode_length keys d')"

text \<open>A list comprehension over a function that may raise.\<close>

fun map_exn :: "('x \<Rightarrow> exn + 'y) \<Rightarrow> 'x list \<Rightarrow> exn + 'y list" where
  "map_exn f [] = Inr []"
| "map_exn f (x # xs) =
     (case f x of
        Inl e \<Rightarrow> Inl e
      | Inr y \<Rightarrow> (case map_exn f xs of Inl e \<Rightarrow> Inl e | Inr ys \<Rightarrow> Inr (y # ys)))"

text \<open>
  \<^verbatim>\<open>np.stack(frames, axis=0)\<close>, the result again as the list of its frames: \<^verbatim>\<open>ValueError\<close> for
  no frame and for frames of different shapes.
\<close>

definition np_stack :: "'p ndarray list \<Rightarrow> exn + 'p ndarray list" where
  "np_stack frames =
     (case frames of
        [] \<Rightarrow> Inl ValueError
      | f # fs \<Rightarrow> if list_all (\<lambda>g. shape g = shape f) fs then Inr frames else Inl ValueError)"

text \<open>The body of the loop of line 123 for one key, lines 124--132.\<close>

definition load_rgb_key ::
  "('a, 'p, 'e, 's) externals \<Rightarrow> shape_meta \<Rightarrow> ('a, 'p) h5file \<Rightarrow> string
     \<Rightarrow> (string \<times> 'p ndarray list list) list \<Rightarrow> exn + (string \<times> 'p ndarray list list) list" where
  "load_rgb_key ext sm file key d =
     (case images file key of
        None \<Rightarrow> Inl (KeyError (''observations/images/'' @ key))
      | Some imgs \<Rightarrow>
          (case map_of (obs sm) key of
             None \<Rightarrow> Inl (KeyError key)
           | Some a \<Rightarrow>
               (case attr_shape a of
                  [c, h, w] \<Rightarrow>
                    (case map_exn (\<lambda>img. cv2_resize ext img (w, h)) imgs of
                       Inl e \<Rightarrow> Inl e
                     | Inr resize_imgs \<Rightarrow>
                         (case np_stack resize_imgs of
                            Inl e \<Rightarrow> Inl e
                          | Inr imgs \<Rightarrow>
                              (case imgs of
                                 [] \<Rightarrow> Inl IndexError
                               | img0 # _ \<Rightarrow>
                                   if shape img0 = [h, w, c]
                                   then Inr (dict_append key imgs d)
                                   else Inl AssertionError)))
                | _ \<Rightarrow> Inl ValueError)))"

fun load_rgb ::
  "('a, 'p, 'e, 's) externals \<Rightarrow> shape_meta \<Rightarrow> ('a, 'p) h5file \<Rightarrow> string list
     \<Rightarrow> (string \<times> 'p ndarray list list) list \<Rightarrow> exn + (string \<times> 'p ndarray list list) list" where
  "load_rgb ext sm file [] d = Inr d"
| "load_rgb ext sm file (key # keys) d =
     (case load_rgb_key ext sm file key d of
        Inl e \<Rightarrow> Inl e
      | Inr d' \<Rightarrow> load_rgb ext sm file keys d')"

text \<open>
  \<^verbatim>\<open>file['cartesian_action'].shape[0]\<close>, the step count of an episode: \<^verbatim>\<open>KeyError\<close> without
  the dataset, \<^verbatim>\<open>IndexError\<close> for a dataset without dimensions.
\<close>

definition episode_steps :: "('a, 'p) h5file \<Rightarrow> exn + nat" where
  "episode_steps file =
     (case datasets file ''cartesian_action'' of
        None \<Rightarrow> Inl (KeyError ''cartesian_action'')
      | Some a \<Rightarrow> (case shape a of [] \<Rightarrow> Inl IndexError | n # _ \<Rightarrow> Inr n))"

text \<open>The body of the \<^verbatim>\<open>with\<close> block for one opened episode file, lines 99--132.\<close>

definition load_episode ::
  "('a, 'p, 'e, 's) externals \<Rightarrow> shape_meta \<Rightarrow> ('a, 'p) h5file \<Rightarrow> ('a, 'p) loader
     \<Rightarrow> exn + ('a, 'p) loader" where
  "load_episode ext sm file st =
     (case episode_steps file of
        Inl e \<Rightarrow> Inl e
      | Inr episode_length \<Rightarrow>
          (let episode_end = prev_end st + episode_length in
           case load_lowdim ext sm file episode_length (parse_lowdim_keys sm @ [''action''])
                  (lowdim_data_dict st) of
             Inl e \<Rightarrow> Inl e
           | Inr ld \<Rightarrow>
               (case load_rgb ext sm file (parse_rgb_keys sm) (rgb_data_dict st) of
                  Inl e \<Rightarrow> Inl e
                | Inr rd \<Rightarrow>
                    Inr \<lparr>episode_ends = episode_ends st @ [episode_end], prev_end = episode_end,
                         lowdim_data_dict = ld, rgb_data_dict = rd\<rparr>)))"

text \<open>The loop of line 96 over the episode indices.\<close>

fun load_episodes ::
  "('a, 'p, 'e, 's) externals \<Rightarrow> shape_meta \<Rightarrow> ('a, 'p) directory \<Rightarrow> nat list \<Rightarrow> ('a, 'p) loader
     \<Rightarrow> exn + ('a, 'p) loader" where
  "load_episodes ext sm dir [] st = Inr st"
| "load_episodes ext sm dir (epi_idx # idxs) st =
     (case h5py_File dir (episode_name epi_idx) of
        Inl e \<Rightarrow> Inl e
      | Inr file \<Rightarrow>
          (case load_episode ext sm file st of
             Inl e \<Rightarrow> Inl e
           | Inr st' \<Rightarrow> load_episodes ext sm dir idxs st'))"

definition empty_loader :: "('a, 'p) loader" where
  "empty_loader = \<lparr>episode_ends = [], prev_end = 0, lowdim_data_dict = [], rgb_data_dict = []\<rparr>"

text \<open>Lines 91--132: the number of episodes is the number of names that the pattern matches.\<close>

definition read_episodes ::
  "('a, 'p, 'e, 's) externals \<Rightarrow> shape_meta \<Rightarrow> ('a, 'p) directory \<Rightarrow> exn + ('a, 'p) loader" where
  "read_episodes ext sm dir =
     load_episodes ext sm dir [0 ..< length (glob_episodes dir)] empty_loader"

section \<open>Writing the store: lines 143--193\<close>

text \<open>
  A zarr array of the \<^verbatim>\<open>data\<close> group is either written whole and uncompressed (the low-dim
  fields and the action, lines 152--159) or allocated with one chunk per frame and filled
  chunk by chunk with encoded frames (the image fields, lines 169--175); a chunk that was
  never written is absent. The store is the \<^verbatim>\<open>meta\<close> array \<^verbatim>\<open>episode_ends\<close> and the \<^verbatim>\<open>data\<close>
  group. The episode ends are sums of step counts of arrays held in memory, far below the
  range of the 64-bit integers they are stored as, and are kept as natural numbers.
\<close>

datatype ('a, 'e) zarray = Dense "'a ndarray" | Frames "nat list" "nat \<rightharpoonup> 'e"

fun zarray_shape :: "('a, 'e) zarray \<Rightarrow> nat list" where
  "zarray_shape (Dense a) = shape a"
| "zarray_shape (Frames sh ch) = sh"

type_synonym ('a, 'e) zgroup = "string \<rightharpoonup> ('a, 'e) zarray"

record ('a, 'e) store =
  meta_episode_ends :: "nat list"
  data_group :: "('a, 'e) zgroup"

text \<open>
  \<^verbatim>\<open>np.concatenate(data, axis=0)\<close>: \<^verbatim>\<open>ValueError\<close> for an empty list, for an array without
  dimensions and for arrays that differ in a dimension other than the first.
\<close>

definition concatenate_first :: "'a ndarray list \<Rightarrow> exn + 'a ndarray" where
  "concatenate_first arrs =
     (case arrs of
        [] \<Rightarrow> Inl ValueError
      | a # as \<Rightarrow>
          if shape a = [] \<or> \<not> list_all (\<lambda>b. shape b \<noteq> [] \<and> tl (shape b) = tl (shape a)) as
          then Inl ValueError
          else Inr \<lparr>shape = sum_list (map (\<lambda>b. hd (shape b)) arrs) # tl (shape a),
                    flat = concat (map flat arrs)\<rparr>)"

text \<open>
  The loop of lines 150--159. \<^verbatim>\<open>data_group.array(name=key, ...)\<close> raises zarr's
  \<^verbatim>\<open>ContainsArrayError\<close>, a \<^verbatim>\<open>ValueError\<close>, when the group already has the name.
\<close>

fun dump_lowdim ::
  "(string \<times> 'a ndarray list) list \<Rightarrow> ('a, 'e) zgroup \<Rightarrow> exn + ('a, 'e) zgroup" where
  "dump_lowdim [] g = Inr g"
| "dump_lowdim ((key, data) # d) g =
     (case concatenate_first data of
        Inl e \<Rightarrow> Inl e
      | Inr a \<Rightarrow>
          (case g key of
             Some z \<Rightarrow> Inl ValueError
           | None \<Rightarrow> dump_lowdim d (g(key \<mapsto> Dense a))))"

text \<open>
  \<^verbatim>\<open>data_group.require_dataset(name=key, shape=(n_steps,h,w,c), chunks=(1,h,w,c), ...)\<close>: a new
  array without chunks for a new name. For a name that the group already has, zarr raises
  \<^verbatim>\<open>TypeError\<close> when the shapes differ and otherwise hands out the existing array; the tasks
  would then write frames into an array that is not chunked by frame. That can only happen for
  an image field whose name is \<^verbatim>\<open>action\<close> and whose frames have the shape of an action row;
  what the build does then is not described here.
\<close>

definition require_dataset ::
  "('a, 'e) zgroup \<Rightarrow> string \<Rightarrow> nat list \<Rightarrow> exn + ('a, 'e) zgroup" where
  "require_dataset g key sh =
     (case g key of
        None \<Rightarrow> Inr (g(key \<mapsto> Frames sh Map.empty))
      | Some z \<Rightarrow>
          if zarray_shape z = sh then Inl (OutsideModel ''require_dataset on an existing array'')
          else Inl TypeError)"

text \<open>
  One encode task, \<^verbatim>\<open>img_copy(zarr_arr, zarr_idx, hdf5_arr, hdf5_idx)\<close> of lines 134--141, as
  the key of its destination array, the index, and the frame \<^verbatim>\<open>hdf5_arr[hdf5_idx]\<close>. The
  assignment \<^verbatim>\<open>zarr_arr[zarr_idx] = frame\<close> raises \<^verbatim>\<open>IndexError\<close> for an index beyond the first
  dimension, and otherwise encodes the frame and replaces the chunk of that index; the read
  \<^verbatim>\<open>zarr_arr[zarr_idx]\<close> decodes the chunk. Any exception makes the task return \<^verbatim>\<open>False\<close>.
  The frames that reach a task have the shape \<open>(h, w, c)\<close> of the array's chunks.
\<close>

type_synonym 'p task = "string \<times> nat \<times> 'p ndarray"

definition img_copy ::
  "('a, 'p, 'e, 's) externals \<Rightarrow> ('a, 'e) zgroup \<Rightarrow> 'p task \<Rightarrow> ('a, 'e) zgroup \<times> bool" where
  "img_copy ext g t =
     (case t of (key, zarr_idx, frame) \<Rightarrow>
        (case g key of
           Some (Frames (n # sh) ch) \<Rightarrow>
             if zarr_idx < n then
               (case jpeg2k_encode ext frame of
                  None \<Rightarrow> (g, False)
                | Some e \<Rightarrow>
                    (let g' = g(key \<mapsto> Frames (n # sh) (ch(zarr_idx \<mapsto> e)))
                     in case jpeg2k_decode ext e of
                          None \<Rightarrow> (g', False)
                        | Some img \<Rightarrow> (g', True)))
             else (g, False)
         | _ \<Rightarrow> (g, False)))"

text \<open>
  What the main thread does in lines 164--187, as a list of operations: for every image key
  the allocation of its array and then one submission per frame, in index order. The
  unpacking \<^verbatim>\<open>c,h,w = shape\<close> of line 167 raises \<^verbatim>\<open>ValueError\<close> for a shape that has not three
  entries. The per-episode image arrays of one key all have frames of shape \<open>(h, w, c)\<close>, so
  their concatenation is the list of all their frames.
\<close>

datatype 'p op = Require string "nat list" | Submit string nat "'p ndarray" | Raise exn

definition rgb_ops :: "shape_meta \<Rightarrow> nat \<Rightarrow> string \<times> 'p ndarray list list \<Rightarrow> 'p op list" where
  "rgb_ops sm n_steps kd =
     (case kd of (key, data) \<Rightarrow>
        (case map_of (obs sm) key of
           None \<Rightarrow> [Raise (KeyError key)]
         | Some a \<Rightarrow>
             (case attr_shape a of
                [c, h, w] \<Rightarrow>
                  (let hdf5_arr = concat data
                   in Require key [n_steps, h, w, c]
                      # map (\<lambda>hdf5_idx. Submit key hdf5_idx (hdf5_arr ! hdf5_idx))
                          [0 ..< length hdf5_arr])
              | _ \<Rightarrow> [Raise ValueError])))"

definition rgb_program ::
  "shape_meta \<Rightarrow> nat \<Rightarrow> (string \<times> 'p ndarray list list) list \<Rightarrow> 'p op list" where
  "rgb_program sm n_steps d = concat (map (rgb_ops sm n_steps) d)"

text \<open>
  The state of the image stage: the operations that the main thread has still to do, the
  submitted tasks that no worker has run yet, the number of tasks that have run and whose
  future is still in the set \<^verbatim>\<open>futures\<close> (those that returned \<^verbatim>\<open>True\<close> and those that returned
  \<^verbatim>\<open>False\<close>), and the \<^verbatim>\<open>data\<close> group.
\<close>

record ('a, 'p, 'e) pool =
  todo :: "'p op list"
  inflight :: "'p task list"
  done_ok :: nat
  done_failed :: nat
  pool_group :: "('a, 'e) zgroup"

definition futures :: "('a, 'p, 'e) pool \<Rightarrow> nat" where
  "futures st = length (inflight st) + done_ok st + done_failed st"

text \<open>
  The runs of the image stage. A worker runs any submitted task, at any moment, as one step
  (a task touches only the chunk of its own index). The main thread executes its operations
  in order. Before a submission, when \<^verbatim>\<open>len(futures) >= max_inflight_tasks\<close>, it calls
  \<^verbatim>\<open>wait(futures, FIRST_COMPLETED)\<close>, which returns at once for an empty set and otherwise as
  soon as some future is done; it hands back some of the futures that are done (at least
  one), \<open>a\<close> that returned \<^verbatim>\<open>True\<close> and \<open>b\<close> that returned \<^verbatim>\<open>False\<close>, and the build raises
  when \<open>b\<close> is not zero. After the last operation \<^verbatim>\<open>wait(futures)\<close> returns when every task
  has run, and the build raises when one returned \<^verbatim>\<open>False\<close>. An exception in the main thread
  ends the build with that exception.
\<close>

inductive pool_exec ::
  "('a, 'p, 'e, 's) externals \<Rightarrow> int \<Rightarrow> ('a, 'p, 'e) pool \<Rightarrow> exn + ('a, 'e) zgroup \<Rightarrow> bool"
  for ext :: "('a, 'p, 'e, 's) externals" and max_inflight_tasks :: int where
  worker_ok:
    "inflight st = ts1 @ t # ts2 \<Longrightarrow> img_copy ext (pool_group st) t = (g', True) \<Longrightarrow>
     pool_exec ext max_inflight_tasks
       (st\<lparr>inflight := ts1 @ ts2, done_ok := done_ok st + 1, pool_group := g'\<rparr>) r \<Longrightarrow>
     pool_exec ext max_inflight_tasks st r"
| worker_failed:
    "inflight st = ts1 @ t # ts2 \<Longrightarrow> img_copy ext (pool_group st) t = (g', False) \<Longrightarrow>
     pool_exec ext max_inflight_tasks
       (st\<lparr>inflight := ts1 @ ts2, done_failed := done_failed st + 1, pool_group := g'\<rparr>) r \<Longrightarrow>
     pool_exec ext max_inflight_tasks st r"
| require_ok:
    "todo st = Require key sh # ops \<Longrightarrow> require_dataset (pool_group st) key sh = Inr g' \<Longrightarrow>
     pool_exec ext max_inflight_tasks (st\<lparr>todo := ops, pool_group := g'\<rparr>) r \<Longrightarrow>
     pool_exec ext max_inflight_tasks st r"
| require_failed:
    "todo st = Require key sh # ops \<Longrightarrow> require_dataset (pool_group st) key sh = Inl e \<Longrightarrow>
     pool_exec ext max_inflight_tasks st (Inl e)"
| raise:
    "todo st = Raise e # ops \<Longrightarrow> pool_exec ext max_inflight_tasks st (Inl e)"
| submit:
    "todo st = Submit key i frame # ops \<Longrightarrow> int (futures st) < max_inflight_tasks \<Longrightarrow>
     pool_exec ext max_inflight_tasks
       (st\<lparr>todo := ops, inflight := inflight st @ [(key, i, frame)]\<rparr>) r \<Longrightarrow>
     pool_exec ext max_inflight_tasks st r"
| wait_submit:
    "todo st = Submit key i frame # ops \<Longrightarrow> max_inflight_tasks \<le> int (futures st) \<Longrightarrow>
     a \<le> done_ok st \<Longrightarrow> 0 < a \<or> futures st = 0 \<Longrightarrow>
     pool_exec ext max_inflight_tasks
       (st\<lparr>todo := ops, inflight := inflight st @ [(key, i, frame)], done_ok := done_ok st - a\<rparr>) r \<Longrightarrow>
     pool_exec ext max_inflight_tasks st r"
| wait_failed:
    "todo st = Submit key i frame # ops \<Longrightarrow> max_inflight_tasks \<le> int (futures st) \<Longrightarrow>
     0 < done_failed st \<Longrightarrow>
     pool_exec ext max_inflight_tasks st (Inl (RuntimeError ''Failed to encode image!''))"
| final_ok:
    "todo st = [] \<Longrightarrow> inflight st = [] \<Longrightarrow> done_failed st = 0 \<Longrightarrow>
     pool_exec ext max_inflight_tasks st (Inr (pool_group st))"
| final_failed:
    "todo st = [] \<Longrightarrow> inflight st = [] \<Longrightarrow> 0 < done_failed st \<Longrightarrow>
     pool_exec ext max_inflight_tasks st (Inl (RuntimeError ''Failed to encode image!''))"

text \<open>The defaults of lines 69--72.\<close>

definition resolve_workers :: "('a, 'p, 'e, 's) externals \<Rightarrow> int option \<Rightarrow> int" where
  "resolve_workers ext n_workers = (case n_workers of None \<Rightarrow> cpu_count ext | Some n \<Rightarrow> n)"

definition resolve_inflight :: "('a, 'p, 'e, 's) externals \<Rightarrow> int option \<Rightarrow> int option \<Rightarrow> int" where
  "resolve_inflight ext n_workers max_inflight_tasks =
     (case max_inflight_tasks of None \<Rightarrow> resolve_workers ext n_workers * 5 | Some m \<Rightarrow> m)"

text \<open>
  Everything \<^verbatim>\<open>_convert_sapein_to_dp_replay\<close> does before it starts the worker pool, lines
  74--159: it reads the episodes, takes \<^verbatim>\<open>n_steps = episode_ends[-1]\<close> (\<^verbatim>\<open>IndexError\<close> on the
  empty list), and writes the low-dim arrays. The result is the episode ends, the \<^verbatim>\<open>data\<close>
  group so far, and the operations of the image stage.
\<close>

definition prepare ::
  "('a, 'p, 'e, 's) externals \<Rightarrow> shape_meta \<Rightarrow> ('a, 'p) directory
     \<Rightarrow> exn + (nat list \<times> ('a, 'e) zgroup \<times> 'p op list)" where
  "prepare ext sm dir =
     (case read_episodes ext sm dir of
        Inl e \<Rightarrow> Inl e
      | Inr st \<Rightarrow>
          if episode_ends st = [] then Inl IndexError
          else
            (let n_steps = last (episode_ends st)
             in case dump_lowdim (lowdim_data_dict st) Map.empty of
                  Inl e \<Rightarrow> Inl e
                | Inr g \<Rightarrow> Inr (episode_ends st, g, rgb_program sm n_steps (rgb_data_dict st))))"

definition initial_pool :: "('a, 'e) zgroup \<Rightarrow> 'p op list \<Rightarrow> ('a, 'p, 'e) pool" where
  "initial_pool g prog = \<lparr>todo = prog, inflight = [], done_ok = 0, done_failed = 0, pool_group = g\<rparr>"

text \<open>
  The outcomes of \<^verbatim>\<open>_convert_sapein_to_dp_replay\<close>, lines 67--193.
  \<^verbatim>\<open>ThreadPoolExecutor(max_workers=n_workers)\<close> raises \<^verbatim>\<open>ValueError\<close> unless \<open>n_workers\<close> is
  positive. The replay buffer that is returned is identified with the store it wraps.
\<close>

inductive converts ::
  "('a, 'p, 'e, ('a, 'e) store) externals \<Rightarrow> shape_meta \<Rightarrow> ('a, 'p) directory \<Rightarrow> int option
     \<Rightarrow> int option \<Rightarrow> exn + ('a, 'e) store \<Rightarrow> bool"
  for ext sm dir n_workers max_inflight_tasks where
  prepare_failed:
    "prepare ext sm dir = Inl e \<Longrightarrow> converts ext sm dir n_workers max_inflight_tasks (Inl e)"
| executor_failed:
    "prepare ext sm dir = Inr (ends, g, prog) \<Longrightarrow> resolve_workers ext n_workers \<le> 0 \<Longrightarrow>
     converts ext sm dir n_workers max_inflight_tasks (Inl ValueError)"
| rgb_failed:
    "prepare ext sm dir = Inr (ends, g, prog) \<Longrightarrow> 0 < resolve_workers ext n_workers \<Longrightarrow>
     pool_exec ext (resolve_inflight ext n_workers max_inflight_tasks) (initial_pool g prog) (Inl e) \<Longrightarrow>
     converts ext sm dir n_workers max_inflight_tasks (Inl e)"
| replay_buffer_failed:
    "prepare ext sm dir = Inr (ends, g, prog) \<Longrightarrow> 0 < resolve_workers ext n_workers \<Longrightarrow>
     pool_exec ext (resolve_inflight ext n_workers max_inflight_tasks) (initial_pool g prog) (Inr g') \<Longrightarrow>
     replay_buffer_check ext \<lparr>meta_episode_ends = ends, data_group = g'\<rparr> = Some e \<Longrightarrow>
     converts ext sm dir n_workers max_inflight_tasks (Inl e)"
| built:
    "prepare ext sm dir = Inr (ends, g, prog) \<Longrightarrow> 0 < resolve_workers ext n_workers \<Longrightarrow>
     pool_exec ext (resolve_inflight ext n_workers max_inflight_tasks) (initial_pool g prog) (Inr g') \<Longrightarrow>
     replay_buffer_check ext \<lparr>meta_episode_ends = ends, data_group = g'\<rparr> = None \<Longrightarrow>
     converts ext sm dir n_workers max_inflight_tasks (Inr \<lparr>meta_episode_ends = ends, data_group = g'\<rparr>)"

section \<open>Cumulative sums and step counts\<close>

text \<open>
  The running sums of a list of step counts, starting from \<open>p\<close>: what the claim about
  \<^verbatim>\<open>episode_ends\<close> calls the cumulative sum (this definition follows the claim, the loop
  of lines 96--103 is \<open>load_episodes\<close>).
\<close>

fun cumsum_from :: "nat \<Rightarrow> nat list \<Rightarrow> nat list" where
  "cumsum_from p [] = []"
| "cumsum_from p (x # xs) = (p + x) # cumsum_from (p + x) xs"

text \<open>
  The raw step count of episode \<open>i\<close>: the first dimension of \<^verbatim>\<open>cartesian_action\<close> in the file
  \<^verbatim>\<open>episode_i.hdf5\<close>, when the file opens and has the dataset.
\<close>

definition steps_of :: "('a, 'p) directory \<Rightarrow> nat \<Rightarrow> nat option" where
  "steps_of dir i =
     (case h5py_File dir (episode_name i) of
        Inl e \<Rightarrow> None
      | Inr file \<Rightarrow> (case episode_steps file of Inl e \<Rightarrow> None | Inr n \<Rightarrow> Some n))"

section \<open>The image stage run sequentially\<close>

text \<open>
  The reference against which the runs of \<open>pool_exec\<close> are compared: every task runs to its
  end as soon as it is submitted, and any failure gives \<open>None\<close>. \<open>run_tasks\<close> runs the tasks
  that are already submitted, \<open>run_ops\<close> the operations of the main thread.
\<close>

definition task_target :: "'p task \<Rightarrow> string \<times> nat" where
  "task_target t = (fst t, fst (snd t))"

fun run_tasks ::
  "('a, 'p, 'e, 's) externals \<Rightarrow> ('a, 'e) zgroup \<Rightarrow> 'p task list \<Rightarrow> ('a, 'e) zgroup option" where
  "run_tasks ext g [] = Some g"
| "run_tasks ext g (t # ts) =
     (case img_copy ext g t of (g', ok) \<Rightarrow> if ok then run_tasks ext g' ts else None)"

fun run_ops ::
  "('a, 'p, 'e, 's) externals \<Rightarrow> ('a, 'e) zgroup \<Rightarrow> 'p op list \<Rightarrow> ('a, 'e) zgroup option" where
  "run_ops ext g [] = Some g"
| "run_ops ext g (Require key sh # ops) =
     (case require_dataset g key sh of Inl e \<Rightarrow> None | Inr g' \<Rightarrow> run_ops ext g' ops)"
| "run_ops ext g (Submit key i frame # ops) =
     (case img_copy ext g (key, i, frame) of (g', ok) \<Rightarrow> if ok then run_ops ext g' ops else None)"
| "run_ops ext g (Raise e # ops) = None"

definition sequential_outcome ::
  "('a, 'p, 'e, 's) externals \<Rightarrow> ('a, 'p, 'e) pool \<Rightarrow> ('a, 'e) zgroup option" where
  "sequential_outcome ext st =
     (if 0 < done_failed st then None
      else case run_tasks ext (pool_group st) (inflight st) of
             None \<Rightarrow> None
           | Some g \<Rightarrow> run_ops ext g (todo st))"

text \<open>
  The invariant of the image stage: every submitted task writes to an array that is allocated
  and chunked by frame; every submission still to come follows the allocation of its array;
  and no two tasks, submitted or still to come, have the same destination (array and frame
  index).
\<close>

definition frame_keys :: "('a, 'e) zgroup \<Rightarrow> string set" where
  "frame_keys g = {key. \<exists>sh ch. g key = Some (Frames sh ch)}"

fun scoped :: "string set \<Rightarrow> 'p op list \<Rightarrow> bool" where
  "scoped K [] \<longleftrightarrow> True"
| "scoped K (Require key sh # ops) \<longleftrightarrow> scoped (insert key K) ops"
| "scoped K (Submit key i frame # ops) \<longleftrightarrow> key \<in> K \<and> scoped K ops"
| "scoped K (Raise e # ops) \<longleftrightarrow> True"

fun op_targets :: "'p op list \<Rightarrow> (string \<times> nat) list" where
  "op_targets [] = []"
| "op_targets (Submit key i frame # ops) = (key, i) # op_targets ops"
| "op_targets (Require key sh # ops) = op_targets ops"
| "op_targets (Raise e # ops) = op_targets ops"

definition pool_wf :: "('a, 'p, 'e) pool \<Rightarrow> bool" where
  "pool_wf st \<longleftrightarrow>
     fst ` set (inflight st) \<subseteq> frame_keys (pool_group st)
     \<and> scoped (frame_keys (pool_group st)) (todo st)
     \<and> distinct (map task_target (inflight st) @ op_targets (todo st))"

text \<open>
  What makes a task return \<^verbatim>\<open>True\<close>, the group it leaves, and the kind and shape of every array
  of a group, which no task changes.
\<close>

definition task_ok :: "('a, 'p, 'e, 's) externals \<Rightarrow> ('a, 'e) zgroup \<Rightarrow> 'p task \<Rightarrow> bool" where
  "task_ok ext g t \<longleftrightarrow>
     (\<exists>n sh ch. g (fst t) = Some (Frames (n # sh) ch) \<and> fst (snd t) < n)
     \<and> (\<exists>e. jpeg2k_encode ext (snd (snd t)) = Some e \<and> jpeg2k_decode ext e \<noteq> None)"

fun zkind :: "('a, 'e) zarray \<Rightarrow> bool \<times> nat list" where
  "zkind (Dense a) = (False, shape a)"
| "zkind (Frames sh ch) = (True, sh)"

definition skel :: "('a, 'e) zgroup \<Rightarrow> string \<Rightarrow> (bool \<times> nat list) option" where
  "skel g key = map_option zkind (g key)"

definition task_write :: "('a, 'p, 'e, 's) externals \<Rightarrow> 'p task \<Rightarrow> ('a, 'e) zgroup \<Rightarrow> ('a, 'e) zgroup" where
  "task_write ext t g = fst (img_copy ext g t)"

text \<open>The chunk that a task stores, if it stores one.\<close>

definition task_chunk :: "('a, 'p, 'e, 's) externals \<Rightarrow> ('a, 'e) zgroup \<Rightarrow> 'p task \<Rightarrow> 'e option" where
  "task_chunk ext g t =
     (case g (fst t) of
        Some (Frames (n # sh) ch) \<Rightarrow>
          if fst (snd t) < n then jpeg2k_encode ext (snd (snd t)) else None
      | _ \<Rightarrow> None)"

text \<open>A run agrees with the reference: the same group, or a failure where the reference fails.\<close>

definition agrees :: "('a, 'e) zgroup option \<Rightarrow> exn + ('a, 'e) zgroup \<Rightarrow> bool" where
  "agrees expected r \<longleftrightarrow> (case expected of Some g \<Rightarrow> r = Inr g | None \<Rightarrow> (\<exists>e. r = Inl e))"

text \<open>The store that a build returns, if it returns one, computed from the inputs alone.\<close>

definition expected_store ::
  "('a, 'p, 'e, ('a, 'e) store) externals \<Rightarrow> shape_meta \<Rightarrow> ('a, 'p) directory \<Rightarrow> ('a, 'e) store option" where
  "expected_store ext sm dir =
     (case prepare ext sm dir of
        Inl e \<Rightarrow> None
      | Inr (ends, g, prog) \<Rightarrow>
          (case run_ops ext g prog of
             None \<Rightarrow> None
           | Some g' \<Rightarrow>
               (case replay_buffer_check ext \<lparr>meta_episode_ends = ends, data_group = g'\<rparr> of
                  Some e \<Rightarrow> None
                | None \<Rightarrow> Some \<lparr>meta_episode_ends = ends, data_group = g'\<rparr>)))"

section \<open>A concrete source directory\<close>

text \<open>
  Two episodes of two steps and one step, each with a single-arm action, a low-dim field
  \<^verbatim>\<open>ee_pos\<close> of width \<open>d\<close> and a camera \<^verbatim>\<open>cam\<close> whose frames are single pixels; the shape metadata
  declares \<^verbatim>\<open>ee_pos\<close> of width 3, the camera and an action of width 8.
\<close>

definition example_frame :: "nat \<Rightarrow> nat ndarray" where
  "example_frame v = \<lparr>shape = [1, 1, 1], flat = [v]\<rparr>"

definition example_file :: "nat \<Rightarrow> nat \<Rightarrow> nat list \<Rightarrow> (int, nat) h5file" where
  "example_file n d pixels =
     \<lparr>datasets = [''cartesian_action'' \<mapsto> example_actions n 7,
                  ''observations/ee_pos'' \<mapsto> example_actions n d],
      images = [''cam'' \<mapsto> map example_frame pixels]\<rparr>"

definition example_shape_meta :: shape_meta where
  "example_shape_meta =
     \<lparr>obs = [(''ee_pos'', \<lparr>attr_shape = [3], attr_type = None\<rparr>),
             (''cam'', \<lparr>attr_shape = [1, 1, 1], attr_type = Some ''rgb''\<rparr>)],
      action = Some [8]\<rparr>"

definition example_dir :: "(int, nat) directory" where
  "example_dir =
     [(''episode_0.hdf5'', Some (example_file 2 3 [10, 11])),
      (''notes.txt'', None),
      (''episode_1.hdf5'', Some (example_file 1 3 [12]))]"

text \<open>A codec that stores the frame itself and cannot encode a frame whose first pixel is \<open>bad\<close>.\<close>

definition example_ext :: "nat \<Rightarrow> (int, nat, nat ndarray, (int, nat ndarray) store) externals" where
  "example_ext bad =
     \<lparr>rot_forward = rowwise 4 quat_like, float32 = (\<lambda>x. x),
      cv2_resize = (\<lambda>img wh. Inr img),
      jpeg2k_encode = (\<lambda>img. if flat img = [bad] then None else Some img),
      jpeg2k_decode = Some,
      replay_buffer_check = (\<lambda>root. None),
      cpu_count = 4\<rparr>"

text \<open>What reading, preparing and building give on this directory.\<close>

definition example_loaded :: "(int, nat) loader" where
  "example_loaded =
     \<lparr>episode_ends = [2, 3], prev_end = 3,
      lowdim_data_dict =
        [(''ee_pos'', [\<lparr>shape = [2, 3], flat = [0, 1, 2, 3, 4, 5]\<rparr>, \<lparr>shape = [1, 3], flat = [0, 1, 2]\<rparr>]),
         (''action'', [\<lparr>shape = [2, 8], flat = [0, 1, 2, 0, 3, 4, 5, 6, 7, 8, 9, 0, 10, 11, 12, 13]\<rparr>,
                       \<lparr>shape = [1, 8], flat = [0, 1, 2, 0, 3, 4, 5, 6]\<rparr>])],
      rgb_data_dict = [(''cam'', [[example_frame 10, example_frame 11], [example_frame 12]])]\<rparr>"

definition example_lowdim_group :: "(int, nat ndarray) zgroup" where
  "example_lowdim_group =
     [''ee_pos'' \<mapsto> Dense \<lparr>shape = [3, 3], flat = [0, 1, 2, 3, 4, 5, 0, 1, 2]\<rparr>,
      ''action'' \<mapsto> Dense \<lparr>shape = [3, 8],
          flat = [0, 1, 2, 0, 3, 4, 5, 6, 7, 8, 9, 0, 10, 11, 12, 13, 0, 1, 2, 0, 3, 4, 5, 6]\<rparr>]"

definition example_program :: "nat op list" where
  "example_program =
     [Require ''cam'' [3, 1, 1, 1], Submit ''cam'' 0 (example_frame 10),
      Submit ''cam'' 1 (example_frame 11), Submit ''cam'' 2 (example_frame 12)]"

definition example_group :: "(int, nat ndarray) zgroup" where
  "example_group =
     example_lowdim_group(''cam'' \<mapsto>
       Frames [3, 1, 1, 1] [0 \<mapsto> example_frame 10, 1 \<mapsto> example_frame 11, 2 \<mapsto> example_frame 12])"

definition example_store :: "(int, nat ndarray) store" where
  "example_store = \<lparr>meta_episode_ends = [2, 3], data_group = example_group\<rparr>"

text \<open>
  A directory whose two episode files are numbered 0 and 2, one whose second episode has an
  \<^verbatim>\<open>ee_pos\<close> field of width 4, and one with the files 0 and 2 whose first episode has an
  \<^verbatim>\<open>ee_pos\<close> field of width 4.
\<close>

definition example_gap_dir :: "(int, nat) directory" where
  "example_gap_dir =
     [(''episode_0.hdf5'', Some (example_file 2 3 [10, 11])),
      (''episode_2.hdf5'', Some (example_file 1 3 [12]))]"

definition example_bad_dir :: "(int, nat) directory" where
  "example_bad_dir =
     [(''episode_0.hdf5'', Some (example_file 2 3 [10, 11])),
      (''episode_1.hdf5'', Some (example_file 1 4 [12]))]"

definition example_gap_bad_dir :: "(int, nat) directory" where
  "example_gap_bad_dir =
     [(''episode_0.hdf5'', Some (example_file 2 4 [10, 11])),
      (''episode_2.hdf5'', Some (example_file 1 3 [12]))]"

text \<open>Every allocation still to come is under a name that the group does not have yet.\<close>

fun fresh_requires :: "string set \<Rightarrow> 'p op list \<Rightarrow> bool" where
  "fresh_requires D [] \<longleftrightarrow> True"
| "fresh_requires D (Require key sh # ops) \<longleftrightarrow> key \<notin> D \<and> fresh_requires (insert key D) ops"
| "fresh_requires D (Submit key i frame # ops) \<longleftrightarrow> fresh_requires D ops"
| "fresh_requires D (Raise e # ops) \<longleftrightarrow> fresh_requires D ops"

section \<open>Results about the cache manager\<close>

text \<open>
  C1. The claim: when the build or the serialisation raises, the partial archive is deleted
  and the original exception is re-raised, so that the next call rebuilds. The code calls
  \<^verbatim>\<open>shutil.rmtree\<close> on the path of a zip file. Evaluated where the build succeeds and the
  serialisation fails with \<^verbatim>\<open>OSError\<close>: the exception that leaves the constructor is the
  \<^verbatim>\<open>NotADirectoryError\<close> of \<^verbatim>\<open>rmtree\<close>, the partial archive is still on disk, and the
  next call takes the load branch on it instead of rebuilding.
\<close>

theorem cache_failure_leaves_partial_archive:
  "cache_get_or_build ''cache.zarr.zip'' (Inr (0::nat)) None (\<lambda>rb. Some (OSError ''disk full''))
       (\<lambda>n. Inr 0) Absent
     = (Inl (NotADirectoryError ''cache.zarr.zip''), RegularFile Partial)
   \<and> cache_get_or_build ''cache.zarr.zip'' (Inr (0::nat)) None (\<lambda>rb. None)
       (\<lambda>n. Inl (OSError ''bad zip'')) (RegularFile Partial)
     = (Inl (OSError ''bad zip''), RegularFile Partial)"
  by (simp add: cache_get_or_build_def cache_except_def)

section \<open>Results about the normalization provider\<close>

lemma amax_nonempty: "xs \<noteq> [] \<Longrightarrow> amax xs = Inr (Max (set xs))"
  by (cases xs) (simp_all add: amax_def Max.set_eq_fold del: set_simps)

lemma image_normalizers_apply:
  "image_normalizers keys nz k = (if k \<in> set keys then Some ImageRangeNormalizer else nz k)"
  by (induction keys arbitrary: nz) auto

lemma obs_normalizers_keeps:
  "obs_normalizers ats rb keys nz = Inr nz' \<Longrightarrow> k \<notin> set keys \<Longrightarrow> nz' k = nz k"
proof (induction keys arbitrary: nz)
  case Nil
  then show ?case by simp
next
  case (Cons key keys)
  then show ?case
    by (auto split: option.splits sum.splits if_splits)
qed

lemma obs_normalizers_recognised:
  "obs_normalizers ats rb keys nz = Inr nz' \<Longrightarrow> k \<in> set keys \<Longrightarrow> endswith k ''pos'' \<or> endswith k ''quat'' \<or> endswith k ''qpos''"
proof (induction keys arbitrary: nz)
  case Nil
  then show ?case by simp
next
  case (Cons key keys)
  then show ?case
    by (auto split: option.splits sum.splits if_splits)
qed

lemma max_abs_symmetric:
  assumes le: "list_all2 (\<le>) mins (maxs :: real list)" and ne: "maxs \<noteq> []"
  shows "max (Max (set maxs)) (Max (set (map abs mins)))
       = Max ((\<lambda>(mn, mx). max \<bar>mn\<bar> \<bar>mx\<bar>) ` set (zip mins maxs))" (is "?L = Max ?S")
proof -
  have len: "length mins = length maxs" using le by (rule list_all2_lengthD)
  then have ne': "mins \<noteq> []" using ne by auto
  have pw: "\<And>mn mx. (mn, mx) \<in> set (zip mins maxs) \<Longrightarrow> mn \<le> mx"
    using le by (auto simp: list_all2_iff)
  have fin: "finite ?S" by simp
  have neS: "?S \<noteq> {}" using ne ne' by (cases mins; cases maxs) auto
  have "Max ?S \<le> ?L"
  proof (rule Max.boundedI [OF fin neS])
    fix a assume "a \<in> ?S"
    then obtain mn mx where z: "(mn, mx) \<in> set (zip mins maxs)" and a: "a = max \<bar>mn\<bar> \<bar>mx\<bar>"
      by auto
    have mn: "mn \<in> set mins" and mx: "mx \<in> set maxs" using z by (auto dest: set_zip_leftD set_zip_rightD)
    have 1: "\<bar>mn\<bar> \<le> Max (set (map abs mins))" using mn by (intro Max_ge) auto
    have 2: "mx \<le> Max (set maxs)" using mx by (intro Max_ge) auto
    have "mn \<le> mx" using pw z by blast
    then have "\<bar>mx\<bar> \<le> max mx \<bar>mn\<bar>" by linarith
    then show "a \<le> ?L" using a 1 2 by (auto simp: max_def split: if_splits)
  qed
  moreover have "?L \<le> Max ?S"
  proof -
    have "Max (set maxs) \<le> Max ?S"
    proof (rule Max.boundedI)
      show "finite (set maxs)" by simp
      show "set maxs \<noteq> {}" using ne by simp
      fix mx assume "mx \<in> set maxs"
      then obtain mn where z: "(mn, mx) \<in> set (zip mins maxs)"
        using len by (metis in_set_impl_in_set_zip2)
      have "max \<bar>mn\<bar> \<bar>mx\<bar> \<le> Max ?S" using z by (intro Max_ge [OF fin]) force
      then show "mx \<le> Max ?S" by (auto simp: max_def abs_real_def split: if_splits)
    qed
    moreover have "Max (set (map abs mins)) \<le> Max ?S"
    proof (rule Max.boundedI)
      show "finite (set (map abs mins))" by simp
      show "set (map abs mins) \<noteq> {}" using ne' by simp
      fix a assume "a \<in> set (map abs mins)"
      then obtain mn where mn: "mn \<in> set mins" and a: "a = \<bar>mn\<bar>" by auto
      then obtain mx where z: "(mn, mx) \<in> set (zip mins maxs)"
        using len by (metis in_set_impl_in_set_zip1)
      have "max \<bar>mn\<bar> \<bar>mx\<bar> \<le> Max ?S" using z by (intro Max_ge [OF fin]) force
      then show "a \<le> Max ?S" using a by (auto simp: max_def split: if_splits)
    qed
    ultimately show ?thesis by linarith
  qed
  ultimately show ?thesis by linarith
qed

text \<open>
  C7 (as amended). When the buffer holds the action array and its statistics are computed:
  a non-legacy request fails with \<^verbatim>\<open>RuntimeError('unsupported')\<close>; with the legacy scheme,
  whenever \<open>get_normalizer\<close> returns (and no image field is itself called \<^verbatim>\<open>action\<close>), the
  action normalizer is the manual one whose offset is zero in every dimension and whose scale
  is the same in every dimension: the reciprocal of the largest \<open>max \<bar>min\<^sub>d\<bar> \<bar>max\<^sub>d\<bar>\<close> over
  all dimensions \<open>d\<close> (for statistics with \<open>min\<^sub>d \<le> max\<^sub>d\<close>).
\<close>

theorem action_normalizer_uniform_scale:
  assumes rb: "replay_buffer self ''action'' = Some arr" and st: "ats arr = Inr st"
  shows "(\<not> use_legacy_normalizer self \<longrightarrow>
            get_normalizer ats self = Inl (RuntimeError ''unsupported''))
       \<and> (\<forall>nz. use_legacy_normalizer self \<and> get_normalizer ats self = Inr nz
               \<and> ''action'' \<notin> set (rgb_keys self)
               \<and> list_all2 (\<le>) (stat_min st) (stat_max st) \<longrightarrow>
             nz ''action'' = Some (CreateManual
               (replicate (length (stat_max st))
                  (np_recip (Max ((\<lambda>(mn, mx). max \<bar>mn\<bar> \<bar>mx\<bar>) ` set (zip (stat_min st) (stat_max st))))))
               (replicate (length (stat_max st)) (Fin 0)) st))"
proof (intro conjI allI impI)
  assume "\<not> use_legacy_normalizer self"
  then show "get_normalizer ats self = Inl (RuntimeError ''unsupported'')"
    using rb st by (simp add: get_normalizer_def)
next
  fix nz
  assume a: "use_legacy_normalizer self \<and> get_normalizer ats self = Inr nz
               \<and> ''action'' \<notin> set (rgb_keys self)
               \<and> list_all2 (\<le>) (stat_min st) (stat_max st)"
  let ?M = "Max ((\<lambda>(mn, mx). max \<bar>mn\<bar> \<bar>mx\<bar>) ` set (zip (stat_min st) (stat_max st)))"
  let ?n = "CreateManual (replicate (length (stat_max st)) (np_recip ?M))
               (replicate (length (stat_max st)) (Fin 0)) st"
  from a obtain n0 nz1 where n0: "normalizer_from_stat st = Inr n0"
    and o: "obs_normalizers ats (replay_buffer self) (lowdim_keys self) (Map.empty(''action'' \<mapsto> n0)) = Inr nz1"
    and nz: "nz = image_normalizers (rgb_keys self) nz1"
    using rb st by (auto simp: get_normalizer_def split: sum.splits)
  have ne: "stat_max st \<noteq> []"
    using n0 by (auto simp: normalizer_from_stat_def amax_def split: list.splits)
  then have ne': "stat_min st \<noteq> []" using a by auto
  have "n0 = ?n"
    using n0 ne ne' a max_abs_symmetric [of "stat_min st" "stat_max st"]
    by (simp add: normalizer_from_stat_def amax_nonempty Let_def)
  moreover have "''action'' \<notin> set (lowdim_keys self)"
  proof
    assume "''action'' \<in> set (lowdim_keys self)"
    from obs_normalizers_recognised [OF o this] show False
      by (simp add: endswith_def)
  qed
  then have "nz1 ''action'' = Some n0"
    using obs_normalizers_keeps [OF o] by simp
  ultimately show "nz ''action'' = Some ?n"
    using nz a by (simp add: image_normalizers_apply)
qed

lemma endswith_iff: "endswith s suf \<longleftrightarrow> (\<exists>zs. s = zs @ suf)"
proof
  assume "endswith s suf"
  then have "s = take (length s - length suf) s @ suf"
    by (metis append_take_drop_id endswith_def)
  then show "\<exists>zs. s = zs @ suf" ..
next
  assume "\<exists>zs. s = zs @ suf"
  then show "endswith s suf" by (auto simp: endswith_def)
qed

lemma endswith_qpos_pos: "endswith k ''qpos'' \<Longrightarrow> endswith k ''pos''"
proof -
  assume "endswith k ''qpos''"
  then obtain zs where "k = zs @ ''qpos''" by (auto simp: endswith_iff)
  then have "k = (zs @ ''q'') @ ''pos''" by simp
  then show ?thesis unfolding endswith_iff by blast
qed

lemma obs_normalizers_supported:
  assumes "\<forall>k \<in> set keys. \<exists>arr st. rb k = Some arr \<and> ats arr = Inr st"
    and "\<forall>k \<in> set keys. endswith k ''pos'' \<or> endswith k ''quat''"
  shows "\<exists>nz'. obs_normalizers ats rb keys nz = Inr nz'
           \<and> (\<forall>k. k \<notin> set keys \<longrightarrow> nz' k = nz k)
           \<and> (\<forall>k \<in> set keys. \<forall>arr st. rb k = Some arr \<longrightarrow> ats arr = Inr st \<longrightarrow>
                 nz' k = Some (if endswith k ''pos'' then RangeNormalizerFromStat st
                               else IdentityNormalizerFromStat st))"
  using assms
proof (induction keys arbitrary: nz)
  case Nil
  then show ?case by simp
next
  case (Cons key keys)
  from Cons.prems obtain arr st where a: "rb key = Some arr" "ats arr = Inr st"
    by auto
  let ?n = "if endswith key ''pos'' then RangeNormalizerFromStat st else IdentityNormalizerFromStat st"
  have rec: "obs_normalizers ats rb (key # keys) nz = obs_normalizers ats rb keys (nz(key \<mapsto> ?n))"
    using a Cons.prems(2) by auto
  have p1: "\<forall>k \<in> set keys. \<exists>arr st. rb k = Some arr \<and> ats arr = Inr st"
    using Cons.prems(1) by simp
  have p2: "\<forall>k \<in> set keys. endswith k ''pos'' \<or> endswith k ''quat''"
    using Cons.prems(2) by simp
  from Cons.IH [OF p1 p2, of "nz(key \<mapsto> ?n)"]
  obtain nz' where r: "obs_normalizers ats rb keys (nz(key \<mapsto> ?n)) = Inr nz'"
    and out: "\<forall>k. k \<notin> set keys \<longrightarrow> nz' k = (nz(key \<mapsto> ?n)) k"
    and inn: "\<forall>k \<in> set keys. \<forall>arr st. rb k = Some arr \<longrightarrow> ats arr = Inr st \<longrightarrow>
                 nz' k = Some (if endswith k ''pos'' then RangeNormalizerFromStat st
                               else IdentityNormalizerFromStat st)"
    by blast
  show ?case
  proof (intro exI conjI)
    show "obs_normalizers ats rb (key # keys) nz = Inr nz'" using rec r by simp
    show "\<forall>k. k \<notin> set (key # keys) \<longrightarrow> nz' k = nz k" using out by auto
    show "\<forall>k \<in> set (key # keys). \<forall>arr st. rb k = Some arr \<longrightarrow> ats arr = Inr st \<longrightarrow>
                 nz' k = Some (if endswith k ''pos'' then RangeNormalizerFromStat st
                               else IdentityNormalizerFromStat st)"
    proof (intro ballI allI impI)
      fix k arr' st' assume k: "k \<in> set (key # keys)" and b: "rb k = Some arr'" "ats arr' = Inr st'"
      show "nz' k = Some (if endswith k ''pos'' then RangeNormalizerFromStat st'
                               else IdentityNormalizerFromStat st')"
      proof (cases "k \<in> set keys")
        case True
        then show ?thesis using inn b by blast
      next
        case False
        then have "k = key" using k by simp
        then show ?thesis using out False a b by auto
      qed
    qed
  qed
qed

lemma obs_normalizers_unsupported:
  assumes "\<forall>k \<in> set keys. \<exists>arr st. rb k = Some arr \<and> ats arr = Inr st"
    and "\<exists>k \<in> set keys. \<not> endswith k ''pos'' \<and> \<not> endswith k ''quat''"
  shows "obs_normalizers ats rb keys nz = Inl (RuntimeError ''unsupported'')"
  using assms
proof (induction keys arbitrary: nz)
  case Nil
  then show ?case by simp
next
  case (Cons key keys)
  from Cons.prems obtain arr st where a: "rb key = Some arr" "ats arr = Inr st"
    by auto
  show ?case
  proof (cases "endswith key ''pos'' \<or> endswith key ''quat''")
    case True
    then have "\<exists>k \<in> set keys. \<not> endswith k ''pos'' \<and> \<not> endswith k ''quat''"
      using Cons.prems(2) by auto
    then have "\<And>nz. obs_normalizers ats rb keys nz = Inl (RuntimeError ''unsupported'')"
      using Cons.IH Cons.prems(1) by simp
    then show ?thesis using a True by auto
  next
    case False
    then have "\<not> endswith key ''qpos''" using endswith_qpos_pos by blast
    then show ?thesis using a False by simp
  qed
qed

text \<open>
  C8. Once the action normalizer is made, and with statistics available for every low-dim
  key: if some low-dim key ends neither in \<^verbatim>\<open>pos\<close> (which covers \<^verbatim>\<open>qpos\<close>) nor in
  \<^verbatim>\<open>quat\<close>, \<open>get_normalizer\<close> fails with \<^verbatim>\<open>RuntimeError('unsupported')\<close>; otherwise it
  returns, and every low-dim key ending in \<^verbatim>\<open>pos\<close> has the range normalizer of its
  statistics and every other one (ending in \<^verbatim>\<open>quat\<close>) the identity normalizer.
\<close>

theorem obs_normalizer_dispatch:
  assumes act: "replay_buffer self ''action'' = Some a" "ats a = Inr sa"
      "normalizer_from_stat sa = Inr n0" "use_legacy_normalizer self"
    and avail: "\<forall>k \<in> set (lowdim_keys self). \<exists>arr st. replay_buffer self k = Some arr \<and> ats arr = Inr st"
    and disj: "set (lowdim_keys self) \<inter> set (rgb_keys self) = {}"
  shows "((\<exists>k \<in> set (lowdim_keys self). \<not> endswith k ''pos'' \<and> \<not> endswith k ''quat'') \<longrightarrow>
            get_normalizer ats self = Inl (RuntimeError ''unsupported''))
       \<and> ((\<forall>k \<in> set (lowdim_keys self). endswith k ''pos'' \<or> endswith k ''quat'') \<longrightarrow>
            (\<exists>nz. get_normalizer ats self = Inr nz \<and>
               (\<forall>k \<in> set (lowdim_keys self). \<forall>arr st.
                  replay_buffer self k = Some arr \<longrightarrow> ats arr = Inr st \<longrightarrow>
                  nz k = Some (if endswith k ''pos'' then RangeNormalizerFromStat st
                               else IdentityNormalizerFromStat st))))"
proof (intro conjI impI)
  assume "\<exists>k \<in> set (lowdim_keys self). \<not> endswith k ''pos'' \<and> \<not> endswith k ''quat''"
  then show "get_normalizer ats self = Inl (RuntimeError ''unsupported'')"
    using act obs_normalizers_unsupported [OF avail]
    by (simp add: get_normalizer_def)
next
  assume sup: "\<forall>k \<in> set (lowdim_keys self). endswith k ''pos'' \<or> endswith k ''quat''"
  from obs_normalizers_supported [OF avail sup, of "Map.empty(''action'' \<mapsto> n0)"]
  obtain nz' where r: "obs_normalizers ats (replay_buffer self) (lowdim_keys self) (Map.empty(''action'' \<mapsto> n0)) = Inr nz'"
    and inn: "\<forall>k \<in> set (lowdim_keys self). \<forall>arr st. replay_buffer self k = Some arr \<longrightarrow> ats arr = Inr st \<longrightarrow>
                 nz' k = Some (if endswith k ''pos'' then RangeNormalizerFromStat st
                               else IdentityNormalizerFromStat st)"
    by blast
  have g: "get_normalizer ats self = Inr (image_normalizers (rgb_keys self) nz')"
    using act r by (simp add: get_normalizer_def)
  have "\<forall>k \<in> set (lowdim_keys self). image_normalizers (rgb_keys self) nz' k = nz' k"
    using disj by (auto simp: image_normalizers_apply)
  then show "\<exists>nz. get_normalizer ats self = Inr nz \<and>
               (\<forall>k \<in> set (lowdim_keys self). \<forall>arr st.
                  replay_buffer self k = Some arr \<longrightarrow> ats arr = Inr st \<longrightarrow>
                  nz k = Some (if endswith k ''pos'' then RangeNormalizerFromStat st
                               else IdentityNormalizerFromStat st))"
    using g inn by simp
qed

text \<open>The theorem at statistics \<open>min = [-1, -2]\<close>, \<open>max = [1, 2]\<close>: both scale entries are \<open>1/2\<close>.\<close>

lemma example_get_normalizer:
  "get_normalizer (\<lambda>a. Inr (example_stat a)) (example_dataset True [])
     = Inr [''action'' \<mapsto> CreateManual [Fin (1/2), Fin (1/2)] [Fin 0, Fin 0] (example_stat 0),
            ''front_view_color'' \<mapsto> ImageRangeNormalizer]"
  by (simp add: get_normalizer_def example_dataset_def example_stat_def
        normalizer_from_stat_def amax_def np_recip_def)

theorem action_normalizer_uniform_scale_witness:
  "list_all2 (\<le>) (stat_min (example_stat 0)) (stat_max (example_stat 0))
   \<and> get_normalizer (\<lambda>a. Inr (example_stat a)) (example_dataset False [])
       = Inl (RuntimeError ''unsupported'')
   \<and> (\<exists>nz. get_normalizer (\<lambda>a. Inr (example_stat a)) (example_dataset True []) = Inr nz
        \<and> nz ''action'' = Some (CreateManual [Fin (1/2), Fin (1/2)] [Fin 0, Fin 0] (example_stat 0)))"
proof -
  let ?ats = "\<lambda>a. Inr (example_stat a)"
  have le: "list_all2 (\<le>) (stat_min (example_stat 0)) (stat_max (example_stat 0))"
    by (simp add: example_stat_def)
  have m: "Max ((\<lambda>(mn, mx). max \<bar>mn\<bar> \<bar>mx\<bar>) ` set (zip (stat_min (example_stat 0)) (stat_max (example_stat 0)))) = 2"
    by (simp add: example_stat_def)
  have r: "replay_buffer (example_dataset b []) ''action'' = Some 0" for b
    by (simp add: example_dataset_def)
  have f: "get_normalizer ?ats (example_dataset False []) = Inl (RuntimeError ''unsupported'')"
    using action_normalizer_uniform_scale [of "example_dataset False []" 0 ?ats "example_stat 0"] r
    by (simp add: example_dataset_def)
  have "\<forall>nz. get_normalizer ?ats (example_dataset True []) = Inr nz \<longrightarrow>
      nz ''action'' = Some (CreateManual [Fin (1/2), Fin (1/2)] [Fin 0, Fin 0] (example_stat 0))"
    using action_normalizer_uniform_scale [of "example_dataset True []" 0 ?ats "example_stat 0"] r le
    by (simp add: m) (simp add: example_dataset_def example_stat_def np_recip_def)
  then show ?thesis using le f example_get_normalizer by simp
qed

text \<open>
  C7 as stated, with the scale of dimension \<open>d\<close> equal to \<open>1 / max \<bar>min\<^sub>d\<bar> \<bar>max\<^sub>d\<bar>\<close>, fails at
  the same statistics: the sentence gives the scale \<open>[1, 1/2]\<close>, the code \<open>[1/2, 1/2]\<close>.
\<close>

theorem per_dimension_scale_counterexample:
  "get_normalizer (\<lambda>a. Inr (example_stat a)) (example_dataset True [])
     = Inr [''action'' \<mapsto> CreateManual [Fin (1/2), Fin (1/2)] [Fin 0, Fin 0] (example_stat 0),
            ''front_view_color'' \<mapsto> ImageRangeNormalizer]
   \<and> per_dimension_scale (example_stat 0) = [Fin 1, Fin (1/2)]
   \<and> per_dimension_scale (example_stat 0) \<noteq> [Fin (1/2), Fin (1/2)]"
  by (simp add: example_get_normalizer) (simp add: example_stat_def np_recip_def per_dimension_scale_def)

text \<open>The theorem at the keys \<^verbatim>\<open>ee_pos, ee_vel\<close> (unsupported) and \<^verbatim>\<open>ee_pos, ee_quat\<close>.\<close>

lemma example_normalizer_from_stat:
  "normalizer_from_stat (example_stat 0) = Inr (CreateManual [Fin (1/2), Fin (1/2)] [Fin 0, Fin 0] (example_stat 0))"
  by (simp add: example_stat_def normalizer_from_stat_def amax_def np_recip_def)

theorem obs_normalizer_dispatch_witness:
  "get_normalizer (\<lambda>a. Inr (example_stat a)) (example_dataset True [''ee_pos'', ''ee_vel''])
     = Inl (RuntimeError ''unsupported'')
   \<and> (\<exists>nz. get_normalizer (\<lambda>a. Inr (example_stat a)) (example_dataset True [''ee_pos'', ''ee_quat'']) = Inr nz
        \<and> nz ''ee_pos'' = Some (RangeNormalizerFromStat (example_stat 1))
        \<and> nz ''ee_quat'' = Some (IdentityNormalizerFromStat (example_stat 2)))"
proof -
  let ?ats = "\<lambda>a. Inr (example_stat a)"
  have e: "endswith ''ee_pos'' ''pos''" "\<not> endswith ''ee_vel'' ''pos''" "\<not> endswith ''ee_vel'' ''quat''"
    "\<not> endswith ''ee_quat'' ''pos''" "endswith ''ee_quat'' ''quat''"
    by (simp_all add: endswith_def)
  have 1: "get_normalizer ?ats (example_dataset True [''ee_pos'', ''ee_vel'']) = Inl (RuntimeError ''unsupported'')"
    using obs_normalizer_dispatch [of "example_dataset True [''ee_pos'', ''ee_vel'']" 0 ?ats "example_stat 0",
        OF _ _ example_normalizer_from_stat] e
    by (simp add: example_dataset_def)
  have 2: "\<exists>nz. get_normalizer ?ats (example_dataset True [''ee_pos'', ''ee_quat'']) = Inr nz
        \<and> nz ''ee_pos'' = Some (RangeNormalizerFromStat (example_stat 1))
        \<and> nz ''ee_quat'' = Some (IdentityNormalizerFromStat (example_stat 2))"
    using obs_normalizer_dispatch [of "example_dataset True [''ee_pos'', ''ee_quat'']" 0 ?ats "example_stat 0",
        OF _ _ example_normalizer_from_stat] e
    by (simp add: example_dataset_def)
  show ?thesis using 1 2 by simp
qed

section \<open>Results about arrays and the action canonicalizer\<close>

lemma shape_split: "shape a \<noteq> [] \<Longrightarrow> shape a = butlast (shape a) @ [last (shape a)]"
  by simp

lemma size_split: "shape a \<noteq> [] \<Longrightarrow> prod_list (shape a) = prod_list (butlast (shape a)) * last (shape a)"
proof -
  assume "shape a \<noteq> []"
  then have "prod_list (shape a) = prod_list (butlast (shape a) @ [last (shape a)])" by simp
  then show ?thesis by (simp del: append_butlast_last_id)
qed

lemma nth_chunk:
  "\<forall>r \<in> set rs. length r = w \<Longrightarrow> i < length rs \<Longrightarrow> take w (drop (i * w) (concat rs)) = rs ! i"
proof (induction rs arbitrary: i)
  case Nil
  then show ?case by simp
next
  case (Cons r rs)
  show ?case
  proof (cases i)
    case 0
    then show ?thesis using Cons.prems by simp
  next
    case (Suc j)
    then show ?thesis using Cons by simp
  qed
qed

lemma rows_eqI:
  assumes "flat a = concat rs" and "length rs = prod_list (butlast (shape a))"
    and "\<forall>r \<in> set rs. length r = last (shape a)"
  shows "rows a = rs"
proof (rule nth_equalityI)
  show "length (rows a) = length rs" using assms(2) by (simp add: rows_def)
next
  fix i assume "i < length (rows a)"
  then have i: "i < length rs" using assms(2) by (simp add: rows_def)
  then show "rows a ! i = rs ! i"
    using nth_chunk [OF assms(3) i] assms(1,2) by (simp add: rows_def)
qed

lemma length_rows: "length (rows a) = prod_list (butlast (shape a))"
  by (simp add: rows_def)

lemma length_row:
  assumes "wf_array a" and "shape a \<noteq> []" and "r \<in> set (rows a)"
  shows "length r = last (shape a)"
proof -
  let ?w = "last (shape a)" and ?n = "prod_list (butlast (shape a))"
  from assms(3) obtain i where i: "i < ?n" and r: "r = take ?w (drop (i * ?w) (flat a))"
    by (auto simp: rows_def)
  have "length (flat a) = ?n * ?w" using assms(1,2) size_split by (simp add: wf_array_def)
  moreover have "(i + 1) * ?w \<le> ?n * ?w" using i by (intro mult_le_mono1) simp
  ultimately have "?w \<le> length (flat a) - i * ?w" by simp
  then show ?thesis using r by simp
qed

lemma concat_chunks:
  "length xs = n * w \<Longrightarrow> concat (map (\<lambda>i. take w (drop (i * w) xs)) [0 ..< n]) = xs"
proof (induction n arbitrary: xs)
  case 0
  then show ?case by simp
next
  case (Suc n)
  let ?ys = "take (n * w) xs"
  have l: "length ?ys = n * w" using Suc.prems by simp
  have m: "map (\<lambda>i. take w (drop (i * w) xs)) [0 ..< n] = map (\<lambda>i. take w (drop (i * w) ?ys)) [0 ..< n]"
  proof (rule map_cong [OF refl])
    fix i assume "i \<in> set [0 ..< n]"
    then have "(i + 1) * w \<le> n * w" by (intro mult_le_mono1) simp
    then have "w \<le> n * w - i * w" by simp
    then show "take w (drop (i * w) xs) = take w (drop (i * w) ?ys)"
      by (simp add: drop_take min_def)
  qed
  have "concat (map (\<lambda>i. take w (drop (i * w) xs)) [0 ..< n]) = ?ys"
    unfolding m by (rule Suc.IH [OF l])
  moreover have "take w (drop (n * w) xs) = drop (n * w) xs" using Suc.prems by simp
  ultimately show ?case by simp
qed

lemma concat_rows:
  assumes "wf_array a" and "shape a \<noteq> []"
  shows "concat (rows a) = flat a"
proof -
  have "length (flat a) = prod_list (butlast (shape a)) * last (shape a)"
    using assms size_split by (simp add: wf_array_def)
  then show ?thesis unfolding rows_def by (rule concat_chunks)
qed

lemma butlast_shape_slice [simp]: "butlast (shape (slice_last lo hi a)) = butlast (shape a)"
  and last_shape_slice [simp]: "last (shape (slice_last lo hi a)) = min hi (last (shape a)) - min lo (last (shape a))"
  and shape_slice_nonempty [simp]: "shape (slice_last lo hi a) \<noteq> []"
  by (simp_all add: slice_last_def)

lemma rows_slice_last:
  assumes "wf_array a" and "shape a \<noteq> []" and "lo \<le> hi"
  shows "rows (slice_last lo hi a) = map (\<lambda>r. take (hi - lo) (drop lo r)) (rows a)"
proof (rule rows_eqI)
  show "flat (slice_last lo hi a) = concat (map (\<lambda>r. take (hi - lo) (drop lo r)) (rows a))"
    by (simp add: slice_last_def)
  show "length (map (\<lambda>r. take (hi - lo) (drop lo r)) (rows a)) = prod_list (butlast (shape (slice_last lo hi a)))"
    by (simp add: length_rows)
  show "\<forall>r \<in> set (map (\<lambda>r. take (hi - lo) (drop lo r)) (rows a)).
          length r = last (shape (slice_last lo hi a))"
    using length_row [OF assms(1,2)] assms(3) by auto
qed

lemma wf_slice_last:
  assumes "wf_array a" and "shape a \<noteq> []" and "lo \<le> hi"
  shows "wf_array (slice_last lo hi a)"
proof -
  let ?w = "min hi (last (shape a)) - min lo (last (shape a))"
  have "\<forall>r \<in> set (rows a). length (take (hi - lo) (drop lo r)) = ?w"
    using length_row [OF assms(1,2)] assms(3) by auto
  then have "map length (map (\<lambda>r. take (hi - lo) (drop lo r)) (rows a)) = replicate (length (rows a)) ?w"
    by (simp add: map_replicate_const [symmetric] cong: map_cong)
  then have "length (flat (slice_last lo hi a)) = length (rows a) * ?w"
    by (simp add: slice_last_def length_concat sum_list_replicate)
  then show ?thesis
    by (simp add: wf_array_def length_rows slice_last_def)
qed

lemma rows_map_rows:
  assumes "\<forall>r \<in> set (rows a). length (conv r) = k"
  shows "rows (map_rows k conv a) = map conv (rows a)"
proof (rule rows_eqI)
  show "flat (map_rows k conv a) = concat (map conv (rows a))" by (simp add: map_rows_def)
  show "length (map conv (rows a)) = prod_list (butlast (shape (map_rows k conv a)))"
    by (simp add: map_rows_def length_rows)
  show "\<forall>r \<in> set (map conv (rows a)). length r = last (shape (map_rows k conv a))"
    using assms by (simp add: map_rows_def)
qed

lemma concatenate_arms:
  assumes wf: "wf_array a" and ne: "shape a \<noteq> []" and w: "last (shape a) = 7"
    and conv: "\<forall>v. length v = 3 \<longrightarrow> length (conv v) = k"
  shows "concatenate_last (slice_last 0 3 a) (map_rows k conv (slice_last 3 6 a)) (slice_last_from 6 a)
       = Inr \<lparr>shape = butlast (shape a) @ [3 + k + 1],
              flat = concat (map (\<lambda>r. take 3 r @ conv (take 3 (drop 3 r)) @ drop 6 r) (rows a))\<rparr>"
proof -
  have len: "\<And>r. r \<in> set (rows a) \<Longrightarrow> length r = 7"
    using length_row [OF wf ne] w by simp
  have p: "rows (slice_last 0 3 a) = map (take 3) (rows a)"
    using rows_slice_last [OF wf ne, of 0 3] by simp
  have r0: "rows (slice_last 3 6 a) = map (\<lambda>r. take 3 (drop 3 r)) (rows a)"
    using rows_slice_last [OF wf ne, of 3 6] by simp
  have "\<forall>r \<in> set (rows (slice_last 3 6 a)). length (conv r) = k"
    using conv len by (simp add: r0)
  then have r: "rows (map_rows k conv (slice_last 3 6 a)) = map (\<lambda>r. conv (take 3 (drop 3 r))) (rows a)"
    using rows_map_rows [of "slice_last 3 6 a" conv k] by (simp add: r0)
  have g: "rows (slice_last_from 6 a) = map (drop 6) (rows a)"
    using rows_slice_last [OF wf ne, of 6 7] len w by (simp add: slice_last_from_def)
  have z: "zip (map f xs) (zip (map g xs) (map h xs)) = map (\<lambda>x. (f x, g x, h x)) xs" for f g h and xs :: "'a list list"
    by (induction xs) auto
  show ?thesis
    unfolding concatenate_last_def p r g z
    by (simp add: slice_last_from_def slice_last_def map_rows_def w comp_def)
qed

lemma fwd_rot_slice:
  assumes wf: "wf_array a" and ne: "shape a \<noteq> []" and w: "last (shape a) = 7"
    and rw: "acts_rowwise fwd k conv"
  shows "fwd (slice_last 3 6 a) = Inr (map_rows k conv (slice_last 3 6 a))"
proof -
  have "wf_array (slice_last 3 6 a)" using wf_slice_last [OF wf ne, of 3 6] by simp
  moreover have "last (shape (slice_last 3 6 a)) = 3" using w by simp
  ultimately show ?thesis using rw by (simp add: acts_rowwise_def)
qed

lemma convert_actions_single:
  assumes wf: "wf_array raw" and ne: "shape raw \<noteq> []" and w: "last (shape raw) = 7"
    and rw: "acts_rowwise fwd k conv"
  shows "convert_actions fwd f32 raw = Inr (canonicalize_spec k conv f32 raw)"
proof -
  have conv: "\<forall>v. length v = 3 \<longrightarrow> length (conv v) = k" using rw by (simp add: acts_rowwise_def)
  have len: "\<And>r. r \<in> set (rows raw) \<Longrightarrow> length r = 7"
    using length_row [OF wf ne] w by simp
  have c: "map (canonical_row conv f32) (rows raw)
         = map (\<lambda>r. map f32 (take 3 r @ conv (take 3 (drop 3 r)) @ drop 6 r)) (rows raw)"
    using len by (simp add: canonical_row_def canonical_arm_def cong: map_cong)
  show ?thesis
    using ne w fwd_rot_slice [OF wf ne w rw] concatenate_arms [OF wf ne w conv]
    by (simp add: convert_actions_def canonicalize_spec_def astype_def c map_concat comp_def)
qed

lemma concat_pairs:
  "concat (concat (map (\<lambda>r. [p r, q r]) rs)) = concat (map (\<lambda>r. p r @ q r) rs)"
  by (induction rs) auto

lemma map_concat_pairs:
  "map h (concat (map F (concat (map (\<lambda>r. [p r, q r]) rs))))
     = concat (map (\<lambda>r. map h (F (p r)) @ map h (F (q r))) rs)"
  by (induction rs) auto

lemma reshape_arms:
  assumes wf: "wf_array raw" and ne: "shape raw \<noteq> []" and w: "last (shape raw) = 14"
  defines "a \<equiv> \<lparr>shape = [prod_list (butlast (shape raw)), 2, 7], flat = flat raw\<rparr>"
  shows "reshape_neg1 [2, 7] raw = Inr a" and "wf_array a"
    and "rows a = concat (map (\<lambda>r. [take 7 r, drop 7 r]) (rows raw))"
proof -
  have sz: "prod_list (shape raw) = prod_list (butlast (shape raw)) * 14"
    using size_split [OF ne] w by simp
  show "reshape_neg1 [2, 7] raw = Inr a"
    by (simp add: reshape_neg1_def sz a_def)
  show "wf_array a" using wf sz by (simp add: wf_array_def a_def)
  have len: "\<And>r. r \<in> set (rows raw) \<Longrightarrow> length r = 14"
    using length_row [OF wf ne] w by simp
  show "rows a = concat (map (\<lambda>r. [take 7 r, drop 7 r]) (rows raw))"
  proof (rule rows_eqI)
    have "concat (concat (map (\<lambda>r. [take 7 r, drop 7 r]) (rows raw))) = concat (rows raw)"
      by (simp add: concat_pairs)
    then show "flat a = concat (concat (map (\<lambda>r. [take 7 r, drop 7 r]) (rows raw)))"
      using concat_rows [OF wf ne] by (simp add: a_def)
    have "map length (map (\<lambda>r. [take 7 r, drop 7 r]) (rows raw)) = replicate (length (rows raw)) 2"
      by (simp add: map_replicate_const [symmetric] comp_def)
    then show "length (concat (map (\<lambda>r. [take 7 r, drop 7 r]) (rows raw))) = prod_list (butlast (shape a))"
      by (simp add: length_concat sum_list_replicate a_def length_rows del: map_map)
    show "\<forall>r \<in> set (concat (map (\<lambda>r. [take 7 r, drop 7 r]) (rows raw))). length r = last (shape a)"
      using len by (auto simp: a_def)
  qed
qed

lemma convert_actions_dual:
  assumes wf: "wf_array raw" and ne: "shape raw \<noteq> []" and w: "last (shape raw) = 14"
    and rw: "acts_rowwise fwd 6 conv"
  shows "convert_actions fwd f32 raw = Inr (canonicalize_spec 6 conv f32 raw)"
proof -
  let ?a = "\<lparr>shape = [prod_list (butlast (shape raw)), 2, 7], flat = flat raw\<rparr>"
  note ra = reshape_arms [OF wf ne w]
  have conv: "\<forall>v. length v = 3 \<longrightarrow> length (conv v) = 6" using rw by (simp add: acts_rowwise_def)
  have len: "\<And>r. r \<in> set (rows raw) \<Longrightarrow> length r = 14"
    using length_row [OF wf ne] w by simp
  have c: "map (canonical_row conv f32) (rows raw)
         = map (\<lambda>r. map f32 (take 3 (take 7 r) @ conv (take 3 (drop 3 (take 7 r))) @ drop 6 (take 7 r))
                   @ map f32 (take 3 (drop 7 r) @ conv (take 3 (drop 3 (drop 7 r))) @ drop 6 (drop 7 r)))
             (rows raw)"
    using len by (simp add: canonical_row_def canonical_arm_def cong: map_cong)
  have fl: "map f32 (concat (map (\<lambda>r. take 3 r @ conv (take 3 (drop 3 r)) @ drop 6 r) (rows ?a)))
          = concat (map (canonical_row conv f32) (rows raw))"
    unfolding c ra(3) map_concat_pairs by simp
  have s: "shape ?a \<noteq> []" "last (shape ?a) = 7" by simp_all
  show ?thesis
    using ne w ra(1) fwd_rot_slice [OF ra(2) s rw] concatenate_arms [OF ra(2) s conv] fl
    by (simp add: convert_actions_def canonicalize_spec_def astype_def reshape_neg1_def)
qed

text \<open>
  C3 (as amended). For a well-formed raw action array whose last dimension is 7, and for one
  whose last dimension is 14 when the rotation transformer produces 6 numbers per arm, with a
  transformer that converts each row of three angles: \<open>convert_actions\<close> returns the array of
  the description. Its entries are casts to float32; each arm keeps its three position
  entries and its gripper entry, and its angles are replaced by their conversion; the rows of
  14 become rows holding both arms.
\<close>

theorem convert_actions_canonical:
  assumes "wf_array raw" and "shape raw \<noteq> []" and "acts_rowwise fwd k conv"
    and "last (shape raw) = 7 \<or> (last (shape raw) = 14 \<and> k = 6)"
  shows "convert_actions fwd f32 raw = Inr (canonicalize_spec k conv f32 raw)"
  using assms convert_actions_single convert_actions_dual by blast

text \<open>
  C10. Whenever \<open>convert_actions\<close> returns on an array whose last dimension is 14, the result
  has two dimensions and the last is 20, whatever the rotation transformer returned.
\<close>

theorem convert_actions_dual_width:
  assumes "shape raw \<noteq> []" and "last (shape raw) = 14" and "convert_actions fwd f32 raw = Inr out"
  shows "shape out = [prod_list (shape out) div 20, 20] \<and> last (shape out) = 20"
  using assms
  by (auto simp: convert_actions_def reshape_neg1_def Let_def split: sum.splits if_splits prod.splits)

lemma wf_example_actions: "wf_array (example_actions n d)"
  by (simp add: wf_array_def example_actions_def)

lemma rowwise_six: "acts_rowwise (rowwise 6 six_like) 6 six_like"
  by (simp add: acts_rowwise_def rowwise_def six_like_def)

lemma rowwise_quat: "acts_rowwise (rowwise 4 quat_like) 4 quat_like"
  by (simp add: acts_rowwise_def rowwise_def quat_like_def)

lemma example_spec_dual:
  "canonicalize_spec 6 six_like (\<lambda>x. x) (example_actions 2 14)
     = \<lparr>shape = [2, 20],
        flat = [0, 1, 2, 3, 4, 5, - 3, - 4, - 5, 6, 7, 8, 9, 10, 11, 12, - 10, - 11, - 12, 13,
                14, 15, 16, 17, 18, 19, - 17, - 18, - 19, 20, 21, 22, 23, 24, 25, 26, - 24, - 25, - 26, 27]\<rparr>"
  by code_simp

lemma example_spec_single:
  "canonicalize_spec 4 quat_like (\<lambda>x. x) (example_actions 2 7)
     = \<lparr>shape = [2, 8], flat = [0, 1, 2, 0, 3, 4, 5, 6, 7, 8, 9, 0, 10, 11, 12, 13]\<rparr>"
  by code_simp

text \<open>The theorem of C3 on two rows of two arms (six outputs) and two rows of one arm (four).\<close>

theorem convert_actions_canonical_witness:
  "wf_array (example_actions 2 14) \<and> acts_rowwise (rowwise 6 six_like) 6 six_like
   \<and> convert_actions (rowwise 6 six_like) (\<lambda>x. x) (example_actions 2 14)
       = Inr \<lparr>shape = [2, 20],
           flat = [0, 1, 2, 3, 4, 5, - 3, - 4, - 5, 6, 7, 8, 9, 10, 11, 12, - 10, - 11, - 12, 13,
                14, 15, 16, 17, 18, 19, - 17, - 18, - 19, 20, 21, 22, 23, 24, 25, 26, - 24, - 25, - 26, 27]\<rparr>
   \<and> wf_array (example_actions 2 7) \<and> acts_rowwise (rowwise 4 quat_like) 4 quat_like
   \<and> convert_actions (rowwise 4 quat_like) (\<lambda>x. x) (example_actions 2 7)
       = Inr \<lparr>shape = [2, 8], flat = [0, 1, 2, 0, 3, 4, 5, 6, 7, 8, 9, 0, 10, 11, 12, 13]\<rparr>"
proof -
  have 1: "convert_actions (rowwise 6 six_like) (\<lambda>x. x) (example_actions 2 14)
      = Inr (canonicalize_spec 6 six_like (\<lambda>x. x) (example_actions 2 14))"
    by (rule convert_actions_canonical [OF wf_example_actions _ rowwise_six])
       (simp_all add: example_actions_def)
  have 2: "convert_actions (rowwise 4 quat_like) (\<lambda>x. x) (example_actions 2 7)
      = Inr (canonicalize_spec 4 quat_like (\<lambda>x. x) (example_actions 2 7))"
    by (rule convert_actions_canonical [OF wf_example_actions _ rowwise_quat])
       (simp_all add: example_actions_def)
  show ?thesis
    using 1 2 wf_example_actions rowwise_six rowwise_quat
    by (simp add: example_spec_dual example_spec_single)
qed

lemma example_dual_quat:
  "convert_actions (rowwise 4 quat_like) (\<lambda>x. x) (example_actions 5 14)
     = Inr \<lparr>shape = [4, 20],
        flat = [0, 1, 2, 0, 3, 4, 5, 6, 7, 8, 9, 0, 10, 11, 12, 13, 14, 15, 16,
           0, 17, 18, 19, 20, 21, 22, 23, 0, 24, 25, 26, 27, 28, 29, 30, 0,
           31, 32, 33, 34, 35, 36, 37, 0, 38, 39, 40, 41, 42, 43, 44, 0, 45,
           46, 47, 48, 49, 50, 51, 0, 52, 53, 54, 55, 56, 57, 58, 0, 59, 60,
           61, 62, 63, 64, 65, 0, 66, 67, 68, 69]\<rparr>"
  by code_simp

lemma example_dual_quat_fails:
  "convert_actions (rowwise 4 quat_like) (\<lambda>x. x) (example_actions 1 14) = Inl ValueError"
  by code_simp

lemma example_spec_dual_quat_shape:
  "shape (canonicalize_spec 4 quat_like (\<lambda>x. x) (example_actions 5 14)) = [5, 16]"
  by (simp add: canonicalize_spec_def example_actions_def)

text \<open>The theorem of C10 on five rows of two arms and a converter with four outputs.\<close>

theorem convert_actions_dual_width_witness:
  "shape (example_actions 5 14) \<noteq> [] \<and> last (shape (example_actions 5 14)) = 14
   \<and> (\<exists>out. convert_actions (rowwise 4 quat_like) (\<lambda>x. x) (example_actions 5 14) = Inr out
         \<and> shape out = [4, 20] \<and> last (shape out) = 20)"
proof -
  have s: "shape (example_actions 5 14) \<noteq> []" "last (shape (example_actions 5 14)) = 14"
    by (simp_all add: example_actions_def)
  from convert_actions_dual_width [OF s example_dual_quat] s example_dual_quat
  show ?thesis by simp
qed

text \<open>
  C3 as stated fails for two arms and a converter with four outputs: one row of 14 makes the
  flattening to rows of 20 fail, and five rows of 14 come back as four rows of 20.
\<close>

theorem convert_actions_quaternion_counterexample:
  "wf_array (example_actions 1 14) \<and> wf_array (example_actions 5 14)
   \<and> acts_rowwise (rowwise 4 quat_like) 4 quat_like
   \<and> convert_actions (rowwise 4 quat_like) (\<lambda>x. x) (example_actions 1 14) = Inl ValueError
   \<and> convert_actions (rowwise 4 quat_like) (\<lambda>x. x) (example_actions 5 14)
       \<noteq> Inr (canonicalize_spec 4 quat_like (\<lambda>x. x) (example_actions 5 14))"
proof -
  have "convert_actions (rowwise 4 quat_like) (\<lambda>x. x) (example_actions 5 14)
       \<noteq> Inr (canonicalize_spec 4 quat_like (\<lambda>x. x) (example_actions 5 14))"
  proof
    assume a: "convert_actions (rowwise 4 quat_like) (\<lambda>x. x) (example_actions 5 14)
       = Inr (canonicalize_spec 4 quat_like (\<lambda>x. x) (example_actions 5 14))"
    have "map_sum id shape (convert_actions (rowwise 4 quat_like) (\<lambda>x. x) (example_actions 5 14))
       = Inr [4, 20]"
      by (simp add: example_dual_quat)
    then show False unfolding a by (simp add: example_spec_dual_quat_shape)
  qed
  then show ?thesis
    using wf_example_actions rowwise_quat example_dual_quat_fails by simp
qed

section \<open>Results about the episode ends\<close>

lemma length_cumsum_from [simp]: "length (cumsum_from p xs) = length xs"
  by (induction xs arbitrary: p) auto

lemma cumsum_from_append:
  "cumsum_from p (xs @ ys) = cumsum_from p xs @ cumsum_from (p + sum_list xs) ys"
  by (induction xs arbitrary: p) (auto simp: add.assoc)

lemma cumsum_from_nth:
  "k < length xs \<Longrightarrow> cumsum_from p xs ! k = p + sum_list (take (Suc k) xs)"
proof (induction xs arbitrary: p k)
  case Nil
  then show ?case by simp
next
  case (Cons x xs)
  then show ?case by (cases k) (auto simp: add.assoc)
qed

lemma cumsum_from_step:
  assumes "k < length xs"
  shows "int (cumsum_from 0 xs ! k) - (if k = 0 then 0 else int (cumsum_from 0 xs ! (k - 1))) = int (xs ! k)"
proof (cases k)
  case 0
  then show ?thesis using assms by (cases xs) auto
next
  case (Suc j)
  then have "take (Suc k) xs = take k xs @ [xs ! k]"
    using assms by (simp add: take_Suc_conv_app_nth)
  then show ?thesis using assms Suc by (simp add: cumsum_from_nth)
qed

lemma sorted_cumsum_from: "sorted (cumsum_from p xs)"
proof (induction xs arbitrary: p)
  case Nil
  then show ?case by simp
next
  case (Cons x xs)
  have "\<forall>y \<in> set (cumsum_from (p + x) xs). p + x \<le> y"
  proof
    fix y assume "y \<in> set (cumsum_from (p + x) xs)"
    then obtain k where "k < length xs" "y = cumsum_from (p + x) xs ! k"
      by (auto simp: in_set_conv_nth)
    then show "p + x \<le> y" by (simp add: cumsum_from_nth)
  qed
  then show ?case using Cons.IH by simp
qed

lemma last_cumsum_from: "xs \<noteq> [] \<Longrightarrow> last (cumsum_from p xs) = p + sum_list xs"
  by (induction xs rule: rev_induct) (simp_all add: cumsum_from_append)

lemma load_episode_ends:
  assumes "load_episode ext sm file st = Inr st'"
  shows "\<exists>n. episode_steps file = Inr n \<and> episode_ends st' = episode_ends st @ [prev_end st + n]
           \<and> prev_end st' = prev_end st + n"
  using assms by (auto simp: load_episode_def Let_def split: sum.splits)

lemma load_episodes_ends:
  assumes "load_episodes ext sm dir idxs st = Inr st'"
  shows "\<exists>ns. list_all2 (\<lambda>i n. steps_of dir i = Some n) idxs ns
           \<and> episode_ends st' = episode_ends st @ cumsum_from (prev_end st) ns
           \<and> prev_end st' = prev_end st + sum_list ns"
  using assms
proof (induction idxs arbitrary: st)
  case Nil
  then show ?case by simp
next
  case (Cons i idxs)
  from Cons.prems obtain fl st1 where f: "h5py_File dir (episode_name i) = Inr fl"
    and l: "load_episode ext sm fl st = Inr st1"
    and r: "load_episodes ext sm dir idxs st1 = Inr st'"
    by (auto split: sum.splits)
  from load_episode_ends [OF l] obtain n where n: "episode_steps fl = Inr n"
    "episode_ends st1 = episode_ends st @ [prev_end st + n]" "prev_end st1 = prev_end st + n"
    by blast
  from Cons.IH [OF r] obtain ns where ns: "list_all2 (\<lambda>i n. steps_of dir i = Some n) idxs ns"
    "episode_ends st' = episode_ends st1 @ cumsum_from (prev_end st1) ns"
    "prev_end st' = prev_end st1 + sum_list ns"
    by blast
  have "steps_of dir i = Some n" using f n by (simp add: steps_of_def)
  then have "list_all2 (\<lambda>i n. steps_of dir i = Some n) (i # idxs) (n # ns)" using ns by simp
  moreover have "episode_ends st' = episode_ends st @ cumsum_from (prev_end st) (n # ns)"
    using n ns by simp
  moreover have "prev_end st' = prev_end st + sum_list (n # ns)" using n ns by simp
  ultimately show ?case by blast
qed

lemma pool_exec_result: "converts ext sm dir nw mi (Inr s) \<Longrightarrow>
   \<exists>g prog. prepare ext sm dir = Inr (meta_episode_ends s, g, prog)"
  by (erule converts.cases) auto

lemma prepare_ends:
  assumes "prepare ext sm dir = Inr (ends, g, prog)"
  shows "\<exists>st. read_episodes ext sm dir = Inr st \<and> ends = episode_ends st \<and> ends \<noteq> []"
  using assms by (auto simp: prepare_def Let_def split: sum.splits if_splits)

text \<open>
  C2. When the conversion returns a store, the \<^verbatim>\<open>episode_ends\<close> array of its \<^verbatim>\<open>meta\<close> group is
  the cumulative sum of the raw step counts of the episodes \<open>0, \<dots>, N - 1\<close>, where \<open>N\<close> is the
  number of episode files: it has \<open>N\<close> entries (and \<open>N\<close> is not zero), consecutive entries
  differ by the step count of the episode (the first entry is the step count of episode 0),
  the array is sorted, and its last entry is the total number of steps.
\<close>

theorem episode_ends_cumulative:
  assumes "converts ext sm dir n_workers max_inflight_tasks (Inr s)"
  shows "\<exists>ns. list_all2 (\<lambda>k n. steps_of dir k = Some n) [0 ..< length (glob_episodes dir)] ns
          \<and> meta_episode_ends s = cumsum_from 0 ns
          \<and> length (meta_episode_ends s) = length (glob_episodes dir)
          \<and> 0 < length (glob_episodes dir)
          \<and> (\<forall>k < length (glob_episodes dir).
                int (meta_episode_ends s ! k)
                  - (if k = 0 then 0 else int (meta_episode_ends s ! (k - 1))) = int (ns ! k))
          \<and> sorted (meta_episode_ends s)
          \<and> last (meta_episode_ends s) = sum_list ns"
proof -
  from pool_exec_result [OF assms] obtain g prog where
    "prepare ext sm dir = Inr (meta_episode_ends s, g, prog)" by blast
  from prepare_ends [OF this] obtain st where st: "read_episodes ext sm dir = Inr st"
    and e: "meta_episode_ends s = episode_ends st" and ne: "meta_episode_ends s \<noteq> []"
    by blast
  from load_episodes_ends [OF st [unfolded read_episodes_def]]
  obtain ns where ns: "list_all2 (\<lambda>i n. steps_of dir i = Some n) [0 ..< length (glob_episodes dir)] ns"
    and c: "episode_ends st = cumsum_from 0 ns"
    by (auto simp: empty_loader_def)
  have len: "length ns = length (glob_episodes dir)"
    using ns by (auto dest: list_all2_lengthD)
  have nne: "ns \<noteq> []" using ne e c by auto
  show ?thesis
  proof (intro exI [of _ ns] conjI allI impI)
    show "list_all2 (\<lambda>k n. steps_of dir k = Some n) [0 ..< length (glob_episodes dir)] ns" by (rule ns)
    show "meta_episode_ends s = cumsum_from 0 ns" using e c by simp
    show "length (meta_episode_ends s) = length (glob_episodes dir)" using e c len by simp
    show "0 < length (glob_episodes dir)" using nne len by auto
    show "sorted (meta_episode_ends s)" using e c sorted_cumsum_from by simp
    show "last (meta_episode_ends s) = sum_list ns" using e c last_cumsum_from [OF nne, of 0] by simp
  next
    fix k assume "k < length (glob_episodes dir)"
    then have "k < length ns" using len by simp
    from cumsum_from_step [OF this]
    show "int (meta_episode_ends s ! k)
                  - (if k = 0 then 0 else int (meta_episode_ends s ! (k - 1))) = int (ns ! k)"
      unfolding e c .
  qed
qed

section \<open>Results about the image stage\<close>

lemma zkind_Frames: "zkind z = (True, sh) \<longleftrightarrow> (\<exists>ch. z = Frames sh ch)"
  by (cases z) auto

lemma skel_Frames: "skel g key = Some (True, sh) \<longleftrightarrow> (\<exists>ch. g key = Some (Frames sh ch))"
  by (cases "g key") (auto simp: skel_def zkind_Frames)

lemma skel_None: "skel g key = None \<longleftrightarrow> g key = None"
  by (simp add: skel_def)

lemma zkind_shape: "snd (zkind z) = zarray_shape z"
  by (cases z) auto

lemma img_copy_ok: "snd (img_copy ext g t) = task_ok ext g t"
  by (cases t) (auto simp: img_copy_def task_ok_def Let_def
      split: option.splits zarray.splits list.splits)

lemma img_copy_other: "key \<noteq> fst t \<Longrightarrow> fst (img_copy ext g t) key = g key"
  by (cases t) (auto simp: img_copy_def Let_def split: option.splits zarray.splits list.splits)

lemma img_copy_skel: "skel (fst (img_copy ext g t)) = skel g"
proof
  fix key show "skel (fst (img_copy ext g t)) key = skel g key"
    by (cases t) (auto simp: skel_def img_copy_def Let_def
        split: option.splits zarray.splits list.splits)
qed

lemma task_ok_alt:
  "task_ok ext g t \<longleftrightarrow>
     (\<exists>n sh. skel g (fst t) = Some (True, n # sh) \<and> fst (snd t) < n)
     \<and> (\<exists>e. jpeg2k_encode ext (snd (snd t)) = Some e \<and> jpeg2k_decode ext e \<noteq> None)"
  unfolding task_ok_def skel_Frames by blast

lemma task_ok_skel: "skel g = skel g' \<Longrightarrow> task_ok ext g t = task_ok ext g' t"
  by (simp add: task_ok_alt)

lemma frame_keys_alt: "frame_keys g = {key. \<exists>sh. skel g key = Some (True, sh)}"
  unfolding skel_Frames by (simp add: frame_keys_def)

lemma frame_keys_skel: "skel g = skel g' \<Longrightarrow> frame_keys g = frame_keys g'"
  by (simp add: frame_keys_alt)

lemma require_dataset_skel:
  "skel g = skel g' \<Longrightarrow> require_dataset g key sh = Inl e \<Longrightarrow> \<exists>e'. require_dataset g' key sh = Inl e'"
proof -
  assume "skel g = skel g'" and r: "require_dataset g key sh = Inl e"
  then have s: "skel g key = skel g' key" by simp
  from r have "g key \<noteq> None" by (auto simp: require_dataset_def split: option.splits)
  then have "g' key \<noteq> None" using s by (metis skel_None)
  then show ?thesis by (auto simp: require_dataset_def)
qed

lemma img_copy_split: "img_copy ext g t = (task_write ext t g, task_ok ext g t)"
  by (simp add: task_write_def img_copy_ok [symmetric])

lemma task_write_None: "task_chunk ext g t = None \<Longrightarrow> task_write ext t g = g"
  by (cases t) (auto simp: task_write_def task_chunk_def img_copy_def Let_def
      split: option.splits zarray.splits list.splits if_splits)

lemma task_write_Some:
  assumes "task_chunk ext g t = Some e"
  shows "\<exists>n sh ch. g (fst t) = Some (Frames (n # sh) ch)
          \<and> task_write ext t g = g(fst t \<mapsto> Frames (n # sh) (ch(fst (snd t) \<mapsto> e)))"
  using assms
  by (cases t) (auto simp: task_write_def task_chunk_def img_copy_def Let_def
      split: option.splits zarray.splits list.splits if_splits)

lemma task_chunk_skel: "skel g = skel g' \<Longrightarrow> task_chunk ext g t = task_chunk ext g' t"
proof -
  assume "skel g = skel g'"
  then have s: "skel g (fst t) = skel g' (fst t)" by simp
  show ?thesis
  proof (cases "\<exists>n sh. skel g (fst t) = Some (True, n # sh)")
    case True
    then obtain n sh where a: "skel g (fst t) = Some (True, n # sh)" by blast
    then have b: "skel g' (fst t) = Some (True, n # sh)" using s by simp
    from a b obtain ch ch' where "g (fst t) = Some (Frames (n # sh) ch)"
      "g' (fst t) = Some (Frames (n # sh) ch')" unfolding skel_Frames by blast
    then show ?thesis by (simp add: task_chunk_def)
  next
    case False
    then have "\<not> (\<exists>n sh. skel g' (fst t) = Some (True, n # sh))" using s by simp
    with False have "\<not> (\<exists>n sh ch. g (fst t) = Some (Frames (n # sh) ch))"
      "\<not> (\<exists>n sh ch. g' (fst t) = Some (Frames (n # sh) ch))"
      unfolding skel_Frames by blast+
    then show ?thesis
      by (auto simp: task_chunk_def split: option.splits zarray.splits list.splits)
  qed
qed

lemma task_write_other: "key \<noteq> fst t \<Longrightarrow> task_write ext t g key = g key"
  by (simp add: task_write_def img_copy_other)

lemma task_write_skel: "skel (task_write ext t g) = skel g"
  by (simp add: task_write_def img_copy_skel)

lemma skel_upd_other: "key \<noteq> k \<Longrightarrow> skel (g(key \<mapsto> z)) k = skel g k"
  by (simp add: skel_def)

lemma task_chunk_upd_other: "key \<noteq> fst t \<Longrightarrow> task_chunk ext (g(key \<mapsto> z)) t = task_chunk ext g t"
  by (simp add: task_chunk_def)

lemma task_ok_upd_other: "key \<noteq> fst t \<Longrightarrow> task_ok ext (g(key \<mapsto> z)) t = task_ok ext g t"
  by (simp add: task_ok_def)

lemma task_write_upd_other:
  assumes "key \<noteq> fst t"
  shows "task_write ext t (g(key \<mapsto> z)) = (task_write ext t g)(key \<mapsto> z)"
proof (cases "task_chunk ext g t")
  case None
  then show ?thesis using assms by (simp add: task_write_None task_chunk_upd_other)
next
  case (Some e)
  then have s': "task_chunk ext (g(key \<mapsto> z)) t = Some e"
    using assms by (simp add: task_chunk_upd_other)
  from task_write_Some [OF Some] obtain n sh ch where
    a: "g (fst t) = Some (Frames (n # sh) ch)"
    and w: "task_write ext t g = g(fst t \<mapsto> Frames (n # sh) (ch(fst (snd t) \<mapsto> e)))" by blast
  from task_write_Some [OF s'] obtain n' sh' ch' where
    a': "(g(key \<mapsto> z)) (fst t) = Some (Frames (n' # sh') ch')"
    and w': "task_write ext t (g(key \<mapsto> z)) = (g(key \<mapsto> z))(fst t \<mapsto> Frames (n' # sh') (ch'(fst (snd t) \<mapsto> e)))"
    by blast
  have "n' = n \<and> sh' = sh \<and> ch' = ch" using a a' assms by simp
  then show ?thesis unfolding w w' using assms by (simp add: fun_upd_twist)
qed

lemma task_write_commute:
  assumes "task_target t1 \<noteq> task_target t2"
  shows "task_write ext t2 (task_write ext t1 g) = task_write ext t1 (task_write ext t2 g)"
proof -
  have c1: "task_chunk ext (task_write ext t2 g) t1 = task_chunk ext g t1"
    and c2: "task_chunk ext (task_write ext t1 g) t2 = task_chunk ext g t2"
    by (rule task_chunk_skel, rule task_write_skel)+
  show ?thesis
  proof (cases "task_chunk ext g t1")
    case None
    then show ?thesis using c1 by (simp add: task_write_None)
  next
    case S1: (Some e1)
    show ?thesis
    proof (cases "task_chunk ext g t2")
      case None
      then show ?thesis using c2 by (simp add: task_write_None)
    next
      case S2: (Some e2)
      from task_write_Some [OF S1] obtain n1 sh1 ch1 where
        a1: "g (fst t1) = Some (Frames (n1 # sh1) ch1)"
        and w1: "task_write ext t1 g = g(fst t1 \<mapsto> Frames (n1 # sh1) (ch1(fst (snd t1) \<mapsto> e1)))"
        by blast
      from task_write_Some [OF S2] obtain n2 sh2 ch2 where
        a2: "g (fst t2) = Some (Frames (n2 # sh2) ch2)"
        and w2: "task_write ext t2 g = g(fst t2 \<mapsto> Frames (n2 # sh2) (ch2(fst (snd t2) \<mapsto> e2)))"
        by blast
      from task_write_Some [OF S2 [folded c2]] obtain n3 sh3 ch3 where
        a3: "task_write ext t1 g (fst t2) = Some (Frames (n3 # sh3) ch3)"
        and w3: "task_write ext t2 (task_write ext t1 g)
           = (task_write ext t1 g)(fst t2 \<mapsto> Frames (n3 # sh3) (ch3(fst (snd t2) \<mapsto> e2)))"
        by blast
      from task_write_Some [OF S1 [folded c1]] obtain n4 sh4 ch4 where
        a4: "task_write ext t2 g (fst t1) = Some (Frames (n4 # sh4) ch4)"
        and w4: "task_write ext t1 (task_write ext t2 g)
           = (task_write ext t2 g)(fst t1 \<mapsto> Frames (n4 # sh4) (ch4(fst (snd t1) \<mapsto> e1)))"
        by blast
      show ?thesis
      proof (cases "fst t1 = fst t2")
        case True
        then have idx: "fst (snd t1) \<noteq> fst (snd t2)" using assms by (simp add: task_target_def)
        have "n2 = n1 \<and> sh2 = sh1 \<and> ch2 = ch1" using a1 a2 True by simp
        moreover have "n3 = n1 \<and> sh3 = sh1 \<and> ch3 = ch1(fst (snd t1) \<mapsto> e1)"
          using a3 w1 True by simp
        moreover have "n4 = n1 \<and> sh4 = sh1 \<and> ch4 = ch1(fst (snd t2) \<mapsto> e2)"
          using a4 w2 True calculation by simp
        ultimately show ?thesis
          using True idx by (subst w3, subst w4) (simp add: w1 w2 fun_upd_twist)
      next
        case False
        have "n3 = n2 \<and> sh3 = sh2 \<and> ch3 = ch2" using a3 a2 w1 False by simp
        moreover have "n4 = n1 \<and> sh4 = sh1 \<and> ch4 = ch1" using a4 a1 w2 False by simp
        ultimately show ?thesis
          using False by (subst w3, subst w4) (simp add: w1 w2 fun_upd_twist)
      qed
    qed
  qed
qed

lemma skel_fold: "skel (fold (task_write ext) ts g) = skel g"
  by (induction ts arbitrary: g) (simp_all add: task_write_skel)

lemma run_tasks_closed:
  "run_tasks ext g ts =
     (if \<forall>t \<in> set ts. task_ok ext g t then Some (fold (task_write ext) ts g) else None)"
proof (induction ts arbitrary: g)
  case Nil
  then show ?case by simp
next
  case (Cons t ts)
  have "task_ok ext (task_write ext t g) u = task_ok ext g u" for u
    by (rule task_ok_skel) (rule task_write_skel)
  then show ?case using Cons.IH [of "task_write ext t g"]
    by (simp add: img_copy_split)
qed

lemma run_tasks_append:
  "run_tasks ext g (ts @ us) =
     (case run_tasks ext g ts of None \<Rightarrow> None | Some g' \<Rightarrow> run_tasks ext g' us)"
  by (induction ts arbitrary: g) (simp_all add: img_copy_split)

lemma fold_write_remove:
  assumes "task_target t \<notin> task_target ` set ts1"
  shows "fold (task_write ext) (ts1 @ t # ts2) g = fold (task_write ext) (ts1 @ ts2) (task_write ext t g)"
  using assms
proof (induction ts1 arbitrary: g)
  case Nil
  then show ?case by simp
next
  case (Cons a ts1)
  then have "task_target a \<noteq> task_target t" by auto
  then have "task_write ext t (task_write ext a g) = task_write ext a (task_write ext t g)"
    by (rule task_write_commute)
  then show ?case using Cons by simp
qed

lemma fold_write_upd_other:
  "key \<notin> fst ` set ts \<Longrightarrow>
   fold (task_write ext) ts (g(key \<mapsto> z)) = (fold (task_write ext) ts g)(key \<mapsto> z)"
  by (induction ts arbitrary: g) (simp_all add: task_write_upd_other)

lemma fold_write_other:
  "key \<notin> fst ` set ts \<Longrightarrow> fold (task_write ext) ts g key = g key"
  by (induction ts arbitrary: g) (simp_all add: task_write_other)

lemma frame_keys_require:
  "require_dataset g key sh = Inr g' \<Longrightarrow> g key = None \<and> g' = g(key \<mapsto> Frames sh Map.empty)"
  by (auto simp: require_dataset_def split: option.splits if_splits)

lemma frame_keys_upd_Frames: "frame_keys (g(key \<mapsto> Frames sh ch)) = insert key (frame_keys g)"
  by (auto simp: frame_keys_def)

lemma frame_keys_dom: "key \<in> frame_keys g \<Longrightarrow> g key \<noteq> None"
  by (auto simp: frame_keys_def)

lemma frame_keys_task_write: "frame_keys (task_write ext t g) = frame_keys g"
  by (rule frame_keys_skel) (rule task_write_skel)

text \<open>Running one of the submitted tasks first does not change the sequential outcome.\<close>

lemma run_tasks_pick:
  assumes d: "distinct (map task_target (ts1 @ t # ts2))"
  shows "run_tasks ext g (ts1 @ t # ts2) =
     (if task_ok ext g t then run_tasks ext (task_write ext t g) (ts1 @ ts2) else None)"
proof -
  have n: "task_target t \<notin> task_target ` set ts1" using d by auto
  have ok: "task_ok ext (task_write ext t g) u = task_ok ext g u" for u
    by (rule task_ok_skel) (rule task_write_skel)
  show ?thesis
    unfolding run_tasks_closed fold_write_remove [OF n] by (auto simp: ok)
qed

lemma distinct_remove_mid:
  "distinct (map f (xs @ y # ys) @ zs) \<Longrightarrow> distinct (map f (xs @ ys) @ zs)"
  by auto

lemma wf_worker:
  assumes wf: "pool_wf st" and i: "inflight st = ts1 @ t # ts2"
  shows "pool_wf (st\<lparr>inflight := ts1 @ ts2, done_ok := a, done_failed := b,
            pool_group := task_write ext t (pool_group st)\<rparr>)"
proof -
  have "distinct (map task_target (ts1 @ t # ts2) @ op_targets (todo st))"
    using wf i by (simp add: pool_wf_def)
  then have "distinct (map task_target (ts1 @ ts2) @ op_targets (todo st))"
    by (rule distinct_remove_mid)
  moreover have "fst ` set (ts1 @ ts2) \<subseteq> frame_keys (pool_group st)"
    using wf i by (auto simp: pool_wf_def)
  moreover have "scoped (frame_keys (pool_group st)) (todo st)"
    using wf by (simp add: pool_wf_def)
  ultimately show ?thesis
    by (simp add: pool_wf_def frame_keys_task_write del: map_append set_append distinct_append)
qed

lemma outcome_worker_ok:
  assumes wf: "pool_wf st" and i: "inflight st = ts1 @ t # ts2" and ok: "task_ok ext (pool_group st) t"
  shows "sequential_outcome ext (st\<lparr>inflight := ts1 @ ts2, done_ok := a,
            pool_group := task_write ext t (pool_group st)\<rparr>) = sequential_outcome ext st"
proof -
  have "distinct (map task_target (inflight st))" using wf by (simp add: pool_wf_def)
  then have d: "distinct (map task_target (ts1 @ t # ts2))" by (simp only: i)
  show ?thesis using ok i run_tasks_pick [OF d, of ext "pool_group st"]
    by (cases st) (simp add: sequential_outcome_def split: option.splits)
qed

lemma outcome_worker_failed:
  assumes wf: "pool_wf st" and i: "inflight st = ts1 @ t # ts2" and ok: "\<not> task_ok ext (pool_group st) t"
  shows "sequential_outcome ext st = None"
proof -
  have "distinct (map task_target (inflight st))" using wf by (simp add: pool_wf_def)
  then have d: "distinct (map task_target (ts1 @ t # ts2))" by (simp only: i)
  show ?thesis using ok i run_tasks_pick [OF d, of ext "pool_group st"]
    by (cases st) (simp add: sequential_outcome_def split: option.splits)
qed

lemma wf_require:
  assumes wf: "pool_wf st" and t: "todo st = Require key sh # ops"
    and r: "require_dataset (pool_group st) key sh = Inr g'"
  shows "pool_wf (st\<lparr>todo := ops, pool_group := g'\<rparr>)"
proof -
  from frame_keys_require [OF r] have g': "g' = (pool_group st)(key \<mapsto> Frames sh Map.empty)" by simp
  show ?thesis using wf t by (auto simp: pool_wf_def g' frame_keys_upd_Frames)
qed

lemma outcome_require_ok:
  assumes wf: "pool_wf st" and t: "todo st = Require key sh # ops"
    and r: "require_dataset (pool_group st) key sh = Inr g'"
  shows "sequential_outcome ext (st\<lparr>todo := ops, pool_group := g'\<rparr>) = sequential_outcome ext st"
proof -
  let ?g = "pool_group st" and ?ts = "inflight st"
  from frame_keys_require [OF r] have n: "?g key = None"
    and g': "g' = ?g(key \<mapsto> Frames sh Map.empty)" by simp_all
  have "fst ` set ?ts \<subseteq> frame_keys ?g" using wf by (simp add: pool_wf_def)
  then have k: "key \<notin> fst ` set ?ts" using n frame_keys_dom by blast
  then have "\<forall>u \<in> set ?ts. key \<noteq> fst u" by force
  then have ok: "\<forall>u \<in> set ?ts. task_ok ext g' u = task_ok ext ?g u"
    by (simp add: g' task_ok_upd_other)
  have f: "fold (task_write ext) ?ts g' = (fold (task_write ext) ?ts ?g)(key \<mapsto> Frames sh Map.empty)"
    unfolding g' by (rule fold_write_upd_other [OF k])
  have "fold (task_write ext) ?ts ?g key = None"
    using fold_write_other [OF k, of ext ?g] n by simp
  then have q: "require_dataset (fold (task_write ext) ?ts ?g) key sh
      = Inr ((fold (task_write ext) ?ts ?g)(key \<mapsto> Frames sh Map.empty))"
    by (simp add: require_dataset_def)
  show ?thesis
    using ok by (auto simp: sequential_outcome_def run_tasks_closed t f q split: option.splits)
qed

lemma outcome_require_failed:
  assumes t: "todo st = Require key sh # ops"
    and r: "require_dataset (pool_group st) key sh = Inl e"
  shows "sequential_outcome ext st = None"
proof -
  have "skel (pool_group st) = skel (fold (task_write ext) (inflight st) (pool_group st))"
    by (simp add: skel_fold)
  from require_dataset_skel [OF this r]
  show ?thesis by (auto simp: sequential_outcome_def run_tasks_closed t)
qed

lemma wf_submit:
  assumes wf: "pool_wf st" and t: "todo st = Submit key i frame # ops"
  shows "pool_wf (st\<lparr>todo := ops, inflight := inflight st @ [(key, i, frame)], done_ok := a\<rparr>)"
  using wf t by (auto simp: pool_wf_def task_target_def)

lemma outcome_submit:
  assumes t: "todo st = Submit key i frame # ops"
  shows "sequential_outcome ext (st\<lparr>todo := ops, inflight := inflight st @ [(key, i, frame)], done_ok := a\<rparr>)
       = sequential_outcome ext st"
  by (auto simp: sequential_outcome_def t run_tasks_append img_copy_split split: option.splits)

theorem pool_exec_sequential:
  assumes "pool_exec ext m st r" and "pool_wf st"
  shows "agrees (sequential_outcome ext st) r"
  using assms
proof (induction rule: pool_exec.induct)
  case (worker_ok st ts1 t ts2 g' r)
  have g': "g' = task_write ext t (pool_group st)" and ok: "task_ok ext (pool_group st) t"
    using worker_ok.hyps(2) by (simp_all add: img_copy_split)
  have "pool_wf (st\<lparr>inflight := ts1 @ ts2, done_ok := done_ok st + 1, pool_group := g'\<rparr>)"
    using wf_worker [OF worker_ok.prems worker_ok.hyps(1), where a = "done_ok st + 1"
        and b = "done_failed st" and ext = ext]
    by (simp add: g')
  from worker_ok.IH [OF this] show ?case
    using outcome_worker_ok [OF worker_ok.prems worker_ok.hyps(1) ok] by (simp add: g')
next
  case (worker_failed st ts1 t ts2 g' r)
  have g': "g' = task_write ext t (pool_group st)" and ok: "\<not> task_ok ext (pool_group st) t"
    using worker_failed.hyps(2) by (simp_all add: img_copy_split)
  have "pool_wf (st\<lparr>inflight := ts1 @ ts2, done_failed := done_failed st + 1, pool_group := g'\<rparr>)"
    using wf_worker [OF worker_failed.prems worker_failed.hyps(1), where a = "done_ok st"
        and b = "done_failed st + 1" and ext = ext]
    by (simp add: g')
  from worker_failed.IH [OF this] have "\<exists>e. r = Inl e"
    by (simp add: agrees_def sequential_outcome_def)
  then show ?case
    using outcome_worker_failed [OF worker_failed.prems worker_failed.hyps(1) ok]
    by (simp add: agrees_def)
next
  case (require_ok st key sh ops g' r)
  from require_ok.IH [OF wf_require [OF require_ok.prems require_ok.hyps(1,2)]]
  show ?case using outcome_require_ok [OF require_ok.prems require_ok.hyps(1,2), of ext] by simp
next
  case (require_failed st key sh ops e)
  then show ?case using outcome_require_failed [of st key sh ops e ext] by (simp add: agrees_def)
next
  case (raise st e ops)
  then show ?case
    by (auto simp: agrees_def sequential_outcome_def split: option.splits)
next
  case (submit st key i frame ops r)
  from submit.IH wf_submit [OF submit.prems submit.hyps(1), where a = "done_ok st"]
  show ?case using outcome_submit [OF submit.hyps(1), where ext = ext and a = "done_ok st"] by simp
next
  case (wait_submit st key i frame ops a r)
  from wait_submit.IH [OF wf_submit [OF wait_submit.prems wait_submit.hyps(1)]]
  show ?case using outcome_submit [OF wait_submit.hyps(1), where ext = ext and a = "done_ok st - a"] by simp
next
  case (wait_failed st key i frame ops)
  then show ?case by (simp add: agrees_def sequential_outcome_def)
next
  case (final_ok st)
  then show ?case by (simp add: agrees_def sequential_outcome_def)
next
  case (final_failed st)
  then show ?case by (simp add: agrees_def sequential_outcome_def)
qed

lemma pool_exec_total: "\<exists>r. pool_exec ext m st r"
proof (induction "2 * length (todo st) + length (inflight st)" arbitrary: st rule: less_induct)
  case less
  show ?case
  proof (cases "inflight st")
    case (Cons t ts)
    then have i: "inflight st = [] @ t # ts" by simp
    obtain g' ok where c: "img_copy ext (pool_group st) t = (g', ok)" by (cases "img_copy ext (pool_group st) t")
    show ?thesis
    proof (cases ok)
      case True
      let ?st = "st\<lparr>inflight := [] @ ts, done_ok := done_ok st + 1, pool_group := g'\<rparr>"
      have "2 * length (todo ?st) + length (inflight ?st) < 2 * length (todo st) + length (inflight st)"
        using Cons by simp
      from less [OF this] obtain r where "pool_exec ext m ?st r" ..
      moreover have "img_copy ext (pool_group st) t = (g', True)" using c True by simp
      ultimately show ?thesis using pool_exec.worker_ok [OF i] by blast
    next
      case False
      let ?st = "st\<lparr>inflight := [] @ ts, done_failed := done_failed st + 1, pool_group := g'\<rparr>"
      have "2 * length (todo ?st) + length (inflight ?st) < 2 * length (todo st) + length (inflight st)"
        using Cons by simp
      from less [OF this] obtain r where "pool_exec ext m ?st r" ..
      moreover have "img_copy ext (pool_group st) t = (g', False)" using c False by simp
      ultimately show ?thesis using pool_exec.worker_failed [OF i] by blast
    qed
  next
    case Nil
    show ?thesis
    proof (cases "todo st")
      case N: Nil
      show ?thesis
      proof (cases "done_failed st = 0")
        case True
        from pool_exec.final_ok [OF N Nil True] show ?thesis ..
      next
        case False
        then have "0 < done_failed st" by simp
        from pool_exec.final_failed [OF N Nil this] show ?thesis ..
      qed
    next
      case (Cons o' ops)
      show ?thesis
      proof (cases o')
        case (Require key sh)
        then have t: "todo st = Require key sh # ops" using Cons by simp
        show ?thesis
        proof (cases "require_dataset (pool_group st) key sh")
          case (Inl e)
          from pool_exec.require_failed [OF t Inl] show ?thesis ..
        next
          case (Inr g')
          let ?st = "st\<lparr>todo := ops, pool_group := g'\<rparr>"
          have "2 * length (todo ?st) + length (inflight ?st) < 2 * length (todo st) + length (inflight st)"
            using t by simp
          from less [OF this] obtain r where "pool_exec ext m ?st r" ..
          from pool_exec.require_ok [OF t Inr this] show ?thesis ..
        qed
      next
        case (Raise e)
        then have "todo st = Raise e # ops" using Cons by simp
        from pool_exec.raise [OF this] show ?thesis ..
      next
        case (Submit key i frame)
        then have t: "todo st = Submit key i frame # ops" using Cons by simp
        show ?thesis
        proof (cases "int (futures st) < m")
          case True
          let ?st = "st\<lparr>todo := ops, inflight := inflight st @ [(key, i, frame)]\<rparr>"
          have "2 * length (todo ?st) + length (inflight ?st) < 2 * length (todo st) + length (inflight st)"
            using t by simp
          from less [OF this] obtain r where "pool_exec ext m ?st r" ..
          from pool_exec.submit [OF t True this] show ?thesis ..
        next
          case False
          then have f: "m \<le> int (futures st)" by simp
          show ?thesis
          proof (cases "0 < done_failed st")
            case True
            from pool_exec.wait_failed [OF t f True] show ?thesis ..
          next
            case F: False
            let ?st = "st\<lparr>todo := ops, inflight := inflight st @ [(key, i, frame)],
                         done_ok := done_ok st - done_ok st\<rparr>"
            have "2 * length (todo ?st) + length (inflight ?st) < 2 * length (todo st) + length (inflight st)"
              using t by simp
            from less [OF this] obtain r where r: "pool_exec ext m ?st r" ..
            have "0 < done_ok st \<or> futures st = 0" using F Nil by (auto simp: futures_def)
            from pool_exec.wait_submit [OF t f order_refl this r] show ?thesis ..
          qed
        qed
      qed
    qed
  qed
qed

text \<open>With the invariant, the sequential outcome is the outcome of some run, for every cap.\<close>

lemma pool_exec_sequential_run:
  assumes "pool_wf st" and "sequential_outcome ext st = Some g"
  shows "pool_exec ext m st (Inr g)"
proof -
  obtain r where r: "pool_exec ext m st r" using pool_exec_total by blast
  from pool_exec_sequential [OF r assms(1)] assms(2) have "r = Inr g" by (simp add: agrees_def)
  then show ?thesis using r by simp
qed

lemma run_ops_submitted:
  assumes "run_ops ext g ops = Some g'" and "Submit key i frame \<in> set ops"
  shows "\<exists>e. jpeg2k_encode ext frame = Some e \<and> jpeg2k_decode ext e \<noteq> None"
  using assms
proof (induction ops arbitrary: g)
  case Nil
  then show ?case by simp
next
  case (Cons o' ops)
  show ?case
  proof (cases o')
    case (Require k sh)
    then show ?thesis using Cons by (auto split: sum.splits)
  next
    case (Raise e)
    then show ?thesis using Cons by simp
  next
    case (Submit k j f)
    show ?thesis
    proof (cases "Submit key i frame = o'")
      case True
      then have "task_ok ext g (key, i, frame)"
        using Cons.prems Submit by (auto simp: img_copy_split split: if_splits)
      then show ?thesis by (simp add: task_ok_def)
    next
      case False
      then show ?thesis using Cons Submit by (auto simp: img_copy_split split: if_splits)
    qed
  qed
qed

lemma keys_dict_append: "map fst (dict_append k v d) = (if k \<in> fst ` set d then map fst d else map fst d @ [k])"
  by (induction k v d rule: dict_append.induct) (auto simp: rev_image_eqI)

lemma distinct_dict_append: "distinct (map fst d) \<Longrightarrow> distinct (map fst (dict_append k v d))"
  by (auto simp: keys_dict_append)

lemma load_rgb_key_distinct:
  "load_rgb_key ext sm fl key d = Inr d' \<Longrightarrow> distinct (map fst d) \<Longrightarrow> distinct (map fst d')"
  by (auto simp: load_rgb_key_def distinct_dict_append
      split: option.splits list.splits sum.splits if_splits)

lemma load_rgb_distinct:
  "load_rgb ext sm fl keys d = Inr d' \<Longrightarrow> distinct (map fst d) \<Longrightarrow> distinct (map fst d')"
proof (induction keys arbitrary: d)
  case Nil
  then show ?case by simp
next
  case (Cons key keys)
  then show ?case by (auto split: sum.splits dest: load_rgb_key_distinct)
qed

lemma load_episode_distinct:
  "load_episode ext sm fl st = Inr st' \<Longrightarrow> distinct (map fst (rgb_data_dict st)) \<Longrightarrow>
   distinct (map fst (rgb_data_dict st'))"
  by (auto simp: load_episode_def Let_def split: sum.splits dest: load_rgb_distinct)

lemma load_episodes_distinct:
  "load_episodes ext sm dir idxs st = Inr st' \<Longrightarrow> distinct (map fst (rgb_data_dict st)) \<Longrightarrow>
   distinct (map fst (rgb_data_dict st'))"
proof (induction idxs arbitrary: st)
  case Nil
  then show ?case by simp
next
  case (Cons i idxs)
  then show ?case by (auto split: sum.splits dest: load_episode_distinct)
qed

lemma dump_lowdim_frame_keys:
  "dump_lowdim d g = Inr g' \<Longrightarrow> frame_keys g' = frame_keys g"
proof (induction d arbitrary: g)
  case Nil
  then show ?case by simp
next
  case (Cons kd d)
  obtain key data where kd: "kd = (key, data)" by (cases kd)
  from Cons.prems obtain a where n: "g key = None"
    and r: "dump_lowdim d (g(key \<mapsto> Dense a)) = Inr g'"
    by (auto simp: kd split: sum.splits option.splits)
  have "frame_keys (g(key \<mapsto> Dense a)) = frame_keys g"
    using n by (auto simp: frame_keys_def)
  with Cons.IH [OF r] show ?case by (simp only:)
qed

lemma scoped_mono: "scoped K ops \<Longrightarrow> K \<subseteq> K' \<Longrightarrow> scoped K' ops"
proof (induction K ops arbitrary: K' rule: scoped.induct)
  case (2 K key sh ops)
  from "2.prems" have "scoped (insert key K) ops" "insert key K \<subseteq> insert key K'" by auto
  from "2.IH" [OF this] show ?case by simp
qed auto

lemma scoped_append: "scoped K ops1 \<Longrightarrow> scoped K ops2 \<Longrightarrow> scoped K (ops1 @ ops2)"
proof (induction K ops1 rule: scoped.induct)
  case (2 K key sh ops)
  then show ?case using scoped_mono [of K ops2 "insert key K"] by auto
qed auto

lemma op_targets_append: "op_targets (ops1 @ ops2) = op_targets ops1 @ op_targets ops2"
  by (induction ops1 rule: op_targets.induct) auto

lemma scoped_submits: "key \<in> K \<Longrightarrow> scoped K (map (\<lambda>i. Submit key i (f i)) is)"
  by (induction "is") auto

lemma op_targets_submits: "op_targets (map (\<lambda>i. Submit key i (f i)) is) = map (\<lambda>i. (key, i)) is"
  by (induction "is") auto

lemma case_triple_other:
  "\<not> (\<exists>c h w. xs = [c, h, w]) \<Longrightarrow> (case xs of [c, h, w] \<Rightarrow> A c h w | _ \<Rightarrow> B) = B"
  by (auto split: list.splits)

lemma rgb_ops_cases:
  "(\<exists>e. rgb_ops sm n kd = [Raise e])
   \<or> (\<exists>sh f len. rgb_ops sm n kd = Require (fst kd) sh # map (\<lambda>i. Submit (fst kd) i (f i)) [0 ..< len])"
proof -
  obtain key data where kd: "kd = (key, data)" by (cases kd)
  show ?thesis
  proof (cases "map_of (obs sm) key")
    case None
    then show ?thesis by (simp add: rgb_ops_def kd)
  next
    case (Some a)
    show ?thesis
    proof (cases "\<exists>c h w. attr_shape a = [c, h, w]")
      case True
      then obtain c h w where "attr_shape a = [c, h, w]" by blast
      then have "rgb_ops sm n kd = Require key [n, h, w, c]
          # map (\<lambda>i. Submit key i (concat data ! i)) [0 ..< length (concat data)]"
        by (simp add: rgb_ops_def kd Some Let_def)
      then show ?thesis unfolding kd by (intro disjI2 exI) simp
    next
      case False
      then show ?thesis by (simp add: rgb_ops_def kd Some case_triple_other)
    qed
  qed
qed

lemma scoped_rgb_ops: "scoped K (rgb_ops sm n kd)"
  using rgb_ops_cases [of sm n kd] by (auto simp: scoped_submits)

lemma op_targets_rgb_ops:
  "distinct (op_targets (rgb_ops sm n kd)) \<and> fst ` set (op_targets (rgb_ops sm n kd)) \<subseteq> {fst kd}"
  using rgb_ops_cases [of sm n kd]
  by (auto simp: op_targets_submits distinct_map inj_on_def)

lemma scoped_rgb_program: "scoped K (rgb_program sm n d)"
proof (induction d)
  case Nil
  show ?case by (simp add: rgb_program_def)
next
  case (Cons kd d)
  have "rgb_program sm n (kd # d) = rgb_ops sm n kd @ rgb_program sm n d"
    by (simp add: rgb_program_def)
  then show ?case using scoped_append [OF scoped_rgb_ops Cons] by simp
qed

lemma op_targets_rgb_program:
  "distinct (map fst d) \<Longrightarrow>
   distinct (op_targets (rgb_program sm n d)) \<and> fst ` set (op_targets (rgb_program sm n d)) \<subseteq> fst ` set d"
proof (induction d)
  case Nil
  show ?case by (simp add: rgb_program_def)
next
  case (Cons kd d)
  have e: "op_targets (rgb_program sm n (kd # d))
      = op_targets (rgb_ops sm n kd) @ op_targets (rgb_program sm n d)"
    by (simp add: rgb_program_def op_targets_append)
  have 1: "distinct (op_targets (rgb_ops sm n kd))"
    and 2: "fst ` set (op_targets (rgb_ops sm n kd)) \<subseteq> {fst kd}"
    using op_targets_rgb_ops [of sm n kd] by blast+
  have "distinct (map fst d)" using Cons.prems by simp
  from Cons.IH [OF this] have 3: "distinct (op_targets (rgb_program sm n d))"
    and 4: "fst ` set (op_targets (rgb_program sm n d)) \<subseteq> fst ` set d"
    by blast+
  have k: "fst kd \<notin> fst ` set d" using Cons.prems by simp
  have 5: "set (op_targets (rgb_ops sm n kd)) \<inter> set (op_targets (rgb_program sm n d)) = {}"
  proof (rule ccontr)
    assume "set (op_targets (rgb_ops sm n kd)) \<inter> set (op_targets (rgb_program sm n d)) \<noteq> {}"
    then obtain x where x1: "x \<in> set (op_targets (rgb_ops sm n kd))"
      and x2: "x \<in> set (op_targets (rgb_program sm n d))" by blast
    from x1 2 have "fst x = fst kd" by blast
    moreover from x2 4 have "fst x \<in> fst ` set d" by blast
    ultimately show False using k by simp
  qed
  have "distinct (op_targets (rgb_program sm n (kd # d)))"
    unfolding e using 1 3 5 by simp
  moreover have "fst ` set (op_targets (rgb_program sm n (kd # d))) \<subseteq> fst ` set (kd # d)"
    unfolding e using 2 4 by auto
  ultimately show ?case by blast
qed

lemma prepare_pool_wf:
  assumes "prepare ext sm dir = Inr (ends, g, prog)"
  shows "pool_wf (initial_pool g prog)"
proof -
  from assms obtain st where st: "read_episodes ext sm dir = Inr st"
    and g: "dump_lowdim (lowdim_data_dict st) Map.empty = Inr g"
    and p: "prog = rgb_program sm (last (episode_ends st)) (rgb_data_dict st)"
    by (auto simp: prepare_def Let_def split: sum.splits if_splits)
  have "distinct (map fst (rgb_data_dict st))"
    using load_episodes_distinct [OF st [unfolded read_episodes_def]] by (simp add: empty_loader_def)
  from op_targets_rgb_program [OF this]
  have "distinct (op_targets prog)" unfolding p by blast
  moreover have "scoped (frame_keys g) prog" unfolding p by (rule scoped_rgb_program)
  ultimately show ?thesis by (simp add: pool_wf_def initial_pool_def)
qed

lemma outcome_initial: "sequential_outcome ext (initial_pool g prog) = run_ops ext g prog"
  by (simp add: sequential_outcome_def initial_pool_def)

lemma converts_expected:
  assumes c: "converts ext sm dir n_workers max_inflight_tasks r"
    and w: "0 < resolve_workers ext n_workers"
  shows "case expected_store ext sm dir of Some s \<Rightarrow> r = Inr s | None \<Rightarrow> (\<exists>e. r = Inl e)"
  using c
proof (cases rule: converts.cases)
  case (prepare_failed e)
  then show ?thesis by (simp add: expected_store_def)
next
  case (executor_failed ends g prog)
  then show ?thesis using w by simp
next
  case (rgb_failed ends g prog e)
  from pool_exec_sequential [OF rgb_failed(4) prepare_pool_wf [OF rgb_failed(2)]]
  have "run_ops ext g prog = None" by (auto simp: agrees_def outcome_initial split: option.splits)
  then show ?thesis using rgb_failed by (simp add: expected_store_def)
next
  case (replay_buffer_failed ends g prog g' e)
  from pool_exec_sequential [OF replay_buffer_failed(4) prepare_pool_wf [OF replay_buffer_failed(2)]]
  have "run_ops ext g prog = Some g'" by (auto simp: agrees_def outcome_initial split: option.splits)
  then show ?thesis using replay_buffer_failed by (simp add: expected_store_def)
next
  case (built ends g prog g')
  from pool_exec_sequential [OF built(4) prepare_pool_wf [OF built(2)]]
  have "run_ops ext g prog = Some g'" by (auto simp: agrees_def outcome_initial split: option.splits)
  then show ?thesis using built by (simp add: expected_store_def)
qed

lemma converts_total: "\<exists>r. converts ext sm dir n_workers max_inflight_tasks r"
proof (cases "prepare ext sm dir")
  case (Inl e)
  from converts.prepare_failed [OF this] show ?thesis ..
next
  case (Inr p)
  obtain ends g prog where p: "prepare ext sm dir = Inr (ends, g, prog)" using Inr by (cases p) auto
  show ?thesis
  proof (cases "0 < resolve_workers ext n_workers")
    case False
    then have "resolve_workers ext n_workers \<le> 0" by simp
    from converts.executor_failed [OF p this] show ?thesis ..
  next
    case True
    obtain r where r: "pool_exec ext (resolve_inflight ext n_workers max_inflight_tasks) (initial_pool g prog) r"
      using pool_exec_total by blast
    show ?thesis
    proof (cases r)
      case (Inl e)
      from converts.rgb_failed [OF p True r [unfolded Inl]] show ?thesis ..
    next
      case (Inr g')
      show ?thesis
      proof (cases "replay_buffer_check ext \<lparr>meta_episode_ends = ends, data_group = g'\<rparr>")
        case None
        from converts.built [OF p True r [unfolded Inr] None] show ?thesis ..
      next
        case (Some e)
        from converts.replay_buffer_failed [OF p True r [unfolded Inr] Some] show ?thesis ..
      qed
    qed
  qed
qed

section \<open>Results about the build\<close>

lemma example_read_episodes:
  "read_episodes (example_ext bad) example_shape_meta example_dir = Inr example_loaded"
  by code_simp

lemma example_prepare:
  "prepare (example_ext bad) example_shape_meta example_dir
     = Inr ([2, 3], example_lowdim_group, example_program)"
  by (simp add: prepare_def example_read_episodes)
     (simp add: example_loaded_def concatenate_first_def example_lowdim_group_def
        rgb_program_def rgb_ops_def example_shape_meta_def example_program_def upt_rec)

lemma example_run_ops:
  "run_ops (example_ext 99) example_lowdim_group example_program = Some example_group"
  by (simp add: example_program_def img_copy_def require_dataset_def example_lowdim_group_def
      example_ext_def example_frame_def example_group_def)

lemma example_converts:
  assumes "0 < resolve_workers (example_ext 99) n_workers"
  shows "converts (example_ext 99) example_shape_meta example_dir n_workers max_inflight_tasks
           (Inr example_store)"
proof -
  have "pool_exec (example_ext 99) (resolve_inflight (example_ext 99) n_workers max_inflight_tasks)
          (initial_pool example_lowdim_group example_program) (Inr example_group)"
    by (rule pool_exec_sequential_run [OF prepare_pool_wf [OF example_prepare]])
       (simp add: outcome_initial example_run_ops)
  from converts.built [OF example_prepare assms this]
  show ?thesis by (simp add: example_store_def example_ext_def)
qed

lemma digit_char_value: "d < 10 \<Longrightarrow> (of_char (digit_char d) :: nat) = 48 + d"
  by (simp add: digit_char_def)

lemma str_nat_value: "foldl (\<lambda>a c. 10 * a + (of_char c - 48)) 0 (str_nat n) = n"
proof (induction n rule: str_nat.induct)
  case (1 n)
  show ?case
  proof (cases "n < 10")
    case True
    then show ?thesis by (subst str_nat.simps) (simp add: digit_char_value)
  next
    case False
    then show ?thesis
      using "1.IH" by (subst str_nat.simps) (simp add: digit_char_value)
  qed
qed

lemma str_nat_inj: "str_nat a = str_nat b \<Longrightarrow> a = b"
  by (metis str_nat_value)

lemma str_nat_nonempty: "str_nat n \<noteq> []"
  by (subst str_nat.simps) simp

lemma episode_name_inj: "episode_name a = episode_name b \<Longrightarrow> a = b"
  by (simp add: episode_name_def str_nat_inj)

lemma episode_name_matches: "matches_episode_pattern (episode_name i)"
proof -
  have "0 < length (str_nat i)" using str_nat_nonempty by simp
  then have "13 \<le> length (episode_name i)" by (simp add: episode_name_def)
  moreover have "take 8 (episode_name i) = ''episode_''" by (simp add: episode_name_def)
  moreover have "endswith (episode_name i) ''.hdf5''"
    unfolding endswith_iff episode_name_def by (intro exI [of _ "''episode_'' @ str_nat i"]) simp
  ultimately show ?thesis by (simp add: matches_episode_pattern_def)
qed

lemma load_episodes_append:
  "load_episodes ext sm dir (xs @ ys) st =
     (case load_episodes ext sm dir xs st of
        Inl e \<Rightarrow> Inl e
      | Inr st' \<Rightarrow> load_episodes ext sm dir ys st')"
  by (induction xs arbitrary: st) (auto split: sum.splits)

lemma missing_episode:
  assumes d: "distinct (map fst dir)"
    and g: "set (glob_episodes dir) \<noteq> episode_name ` {..< length (glob_episodes dir)}"
  shows "\<exists>j < length (glob_episodes dir). map_of dir (episode_name j) = None
           \<and> (\<forall>i < j. map_of dir (episode_name i) \<noteq> None)"
proof -
  let ?G = "glob_episodes dir" and ?N = "length (glob_episodes dir)"
  have "\<exists>j < ?N. map_of dir (episode_name j) = None"
  proof (rule ccontr)
    assume "\<not> (\<exists>j < ?N. map_of dir (episode_name j) = None)"
    then have all: "\<And>j. j < ?N \<Longrightarrow> episode_name j \<in> fst ` set dir"
      by (metis map_of_eq_None_iff)
    have sub: "episode_name ` {..< ?N} \<subseteq> set ?G"
      using all episode_name_matches by (auto simp: glob_episodes_def)
    have "distinct ?G" using d by (simp add: glob_episodes_def)
    then have "card (set ?G) = ?N" by (rule distinct_card)
    moreover have "card (episode_name ` {..< ?N}) = ?N"
      by (subst card_image) (auto simp: inj_on_def dest: episode_name_inj)
    ultimately have "episode_name ` {..< ?N} = set ?G"
      using sub by (intro card_subset_eq) simp_all
    then show False using g by simp
  qed
  then obtain j where j: "j < ?N \<and> map_of dir (episode_name j) = None" by blast
  define k where "k = (LEAST j. j < ?N \<and> map_of dir (episode_name j) = None)"
  have 1: "k < ?N \<and> map_of dir (episode_name k) = None"
    unfolding k_def by (rule LeastI [of _ j]) (rule j)
  have 2: "\<forall>i < k. map_of dir (episode_name i) \<noteq> None"
  proof (intro allI impI)
    fix i assume "i < k"
    then have "\<not> (i < ?N \<and> map_of dir (episode_name i) = None)"
      unfolding k_def by (rule not_less_Least)
    moreover have "i < ?N" using \<open>i < k\<close> 1 by simp
    ultimately show "map_of dir (episode_name i) \<noteq> None" by simp
  qed
  show ?thesis using 1 2 by blast
qed

lemma converts_prepare_failed:
  "prepare ext sm dir = Inl e \<Longrightarrow> converts ext sm dir n_workers max_inflight_tasks r \<Longrightarrow> r = Inl e"
  by (erule converts.cases) auto

lemma prepare_read_failed: "read_episodes ext sm dir = Inl e \<Longrightarrow> prepare ext sm dir = Inl e"
  by (simp add: prepare_def)

lemma read_episodes_split:
  assumes "j < length (glob_episodes dir)"
  shows "read_episodes ext sm dir =
     (case load_episodes ext sm dir [0 ..< j] empty_loader of
        Inl e \<Rightarrow> Inl e
      | Inr st \<Rightarrow> load_episodes ext sm dir (j # [Suc j ..< length (glob_episodes dir)]) st)"
proof -
  have "[0 ..< length (glob_episodes dir)] = [0 ..< j] @ j # [Suc j ..< length (glob_episodes dir)]"
    using assms by (metis less_imp_le_nat upt_add_eq_append upt_conv_Cons zero_le le_add_diff_inverse plus_nat.add_0)
  then show ?thesis by (simp only: read_episodes_def load_episodes_append)
qed

lemma load_episodes_same_files:
  assumes "\<forall>k \<in> set idxs. map_of dir' (episode_name k) = map_of dir (episode_name k)"
  shows "load_episodes ext sm dir' idxs st = load_episodes ext sm dir idxs st"
  using assms
  by (induction idxs arbitrary: st) (auto simp: h5py_File_def split: sum.splits option.splits)

text \<open>
  C9 (as amended). The builder takes for \<open>N\<close> the number of names in the directory that match
  \<^verbatim>\<open>episode_*.hdf5\<close> (the path of the directory is taken to have no character that
  \<^verbatim>\<open>glob\<close> treats as a pattern) and reads the files \<^verbatim>\<open>episode_0.hdf5\<close>, \<open>\<dots>\<close>,
  \<^verbatim>\<open>episode_{N-1}.hdf5\<close> in this order and no other file: a directory with the same \<open>N\<close> and
  the same files under these names is read with the same result. When the matching names are
  not exactly these \<open>N\<close> names, there is a least index \<open>j < N\<close> whose file is missing, and
  reading the episodes fails: with the error of the first episode before \<open>j\<close> that cannot be
  read, if there is one, and with \<^verbatim>\<open>FileNotFoundError\<close> for \<^verbatim>\<open>episode_j.hdf5\<close> otherwise. Every
  build ends with that same error, so none returns a store.
\<close>

theorem gap_in_episode_numbering_fails:
  assumes d: "distinct (map fst dir)"
    and g: "set (glob_episodes dir) \<noteq> episode_name ` {..< length (glob_episodes dir)}"
  shows "(\<forall>dir'. length (glob_episodes dir') = length (glob_episodes dir)
            \<and> (\<forall>i < length (glob_episodes dir).
                   map_of dir' (episode_name i) = map_of dir (episode_name i))
            \<longrightarrow> read_episodes ext sm dir' = read_episodes ext sm dir)
       \<and> (\<exists>j < length (glob_episodes dir). map_of dir (episode_name j) = None
            \<and> (\<forall>i < j. map_of dir (episode_name i) \<noteq> None)
            \<and> (\<exists>e. read_episodes ext sm dir = Inl e
                 \<and> (case load_episodes ext sm dir [0 ..< j] empty_loader of
                       Inl e' \<Rightarrow> e = e'
                     | Inr st \<Rightarrow> e = FileNotFoundError (episode_name j))
                 \<and> (\<forall>n_workers max_inflight_tasks r.
                        converts ext sm dir n_workers max_inflight_tasks r \<longrightarrow> r = Inl e)))"
proof
  show "\<forall>dir'. length (glob_episodes dir') = length (glob_episodes dir)
            \<and> (\<forall>i < length (glob_episodes dir).
                   map_of dir' (episode_name i) = map_of dir (episode_name i))
            \<longrightarrow> read_episodes ext sm dir' = read_episodes ext sm dir"
    by (simp add: read_episodes_def load_episodes_same_files)
next
  from missing_episode [OF d g] obtain j where j: "j < length (glob_episodes dir)"
    and m: "map_of dir (episode_name j) = None"
    and l: "\<forall>i < j. map_of dir (episode_name i) \<noteq> None" by blast
  have o: "h5py_File dir (episode_name j) = Inl (FileNotFoundError (episode_name j))"
    using m by (simp add: h5py_File_def)
  have r: "read_episodes ext sm dir =
     (case load_episodes ext sm dir [0 ..< j] empty_loader of
        Inl e \<Rightarrow> Inl e
      | Inr st \<Rightarrow> Inl (FileNotFoundError (episode_name j)))"
    unfolding read_episodes_split [OF j] using o by (simp split: sum.splits)
  then obtain e where e: "read_episodes ext sm dir = Inl e"
    by (cases "load_episodes ext sm dir [0 ..< j] empty_loader") auto
  have k: "case load_episodes ext sm dir [0 ..< j] empty_loader of
              Inl e' \<Rightarrow> e = e'
            | Inr st \<Rightarrow> e = FileNotFoundError (episode_name j)"
    using r e by (auto split: sum.splits)
  have "\<forall>n_workers max_inflight_tasks r.
       converts ext sm dir n_workers max_inflight_tasks r \<longrightarrow> r = Inl e"
    using converts_prepare_failed [OF prepare_read_failed [OF e]] by blast
  with j m l e k
  show "\<exists>j < length (glob_episodes dir). map_of dir (episode_name j) = None
            \<and> (\<forall>i < j. map_of dir (episode_name i) \<noteq> None)
            \<and> (\<exists>e. read_episodes ext sm dir = Inl e
                 \<and> (case load_episodes ext sm dir [0 ..< j] empty_loader of
                       Inl e' \<Rightarrow> e = e'
                     | Inr st \<Rightarrow> e = FileNotFoundError (episode_name j))
                 \<and> (\<forall>n_workers max_inflight_tasks r.
                        converts ext sm dir n_workers max_inflight_tasks r \<longrightarrow> r = Inl e))"
    by blast
qed

lemma load_lowdim_append:
  "load_lowdim ext sm fl n (xs @ ys) d =
     (case load_lowdim ext sm fl n xs d of
        Inl e \<Rightarrow> Inl e
      | Inr d' \<Rightarrow> load_lowdim ext sm fl n ys d')"
  by (induction xs arbitrary: d) (auto split: sum.splits)

lemma load_lowdim_key_mismatch:
  assumes "datasets fl (data_key key) = Some this_data"
    and "if key = ''action''
         then \<exists>converted sh. convert_actions (rot_forward ext) (float32 ext) this_data = Inr converted
                \<and> action sm = Some sh \<and> shape converted \<noteq> n # sh
         else \<exists>a. map_of (obs sm) key = Some a \<and> shape this_data \<noteq> n # attr_shape a"
  shows "load_lowdim_key ext sm fl n key d = Inl AssertionError"
  using assms by (auto simp: load_lowdim_key_def split: if_splits)

text \<open>
  C6. Let the episodes before episode \<open>j\<close> be read, and in episode \<open>j\<close>, of \<open>n\<close> steps, the keys
  before \<open>key\<close>. If the field of \<open>key\<close> is read and its shape is not \<open>(n,) + declared shape\<close>, or
  \<open>key\<close> is \<^verbatim>\<open>action\<close> and the shape of the canonicalized action is not
  \<open>(n,) + declared action shape\<close>, then the assertion fails: reading the episodes ends with
  \<^verbatim>\<open>AssertionError\<close>, whatever keys and episodes follow, and so does every build.
\<close>

theorem shape_mismatch_aborts_conversion:
  assumes j: "j < length (glob_episodes dir)"
    and prev: "load_episodes ext sm dir [0 ..< j] empty_loader = Inr st"
    and opened: "h5py_File dir (episode_name j) = Inr fl"
    and steps: "episode_steps fl = Inr n"
    and keys: "parse_lowdim_keys sm @ [''action''] = ks1 @ key # ks2"
    and before: "load_lowdim ext sm fl n ks1 (lowdim_data_dict st) = Inr d"
    and rd: "datasets fl (data_key key) = Some this_data"
    and mismatch:
      "if key = ''action''
       then \<exists>converted sh. convert_actions (rot_forward ext) (float32 ext) this_data = Inr converted
              \<and> action sm = Some sh \<and> shape converted \<noteq> n # sh
       else \<exists>a. map_of (obs sm) key = Some a \<and> shape this_data \<noteq> n # attr_shape a"
  shows "read_episodes ext sm dir = Inl AssertionError
       \<and> (\<forall>n_workers max_inflight_tasks r.
             converts ext sm dir n_workers max_inflight_tasks r \<longrightarrow> r = Inl AssertionError)"
proof -
  have k: "load_lowdim_key ext sm fl n key d = Inl AssertionError"
    by (rule load_lowdim_key_mismatch [OF rd mismatch])
  have "load_lowdim ext sm fl n (ks1 @ key # ks2) (lowdim_data_dict st) = Inl AssertionError"
    unfolding load_lowdim_append before using k by simp
  then have "load_episode ext sm fl st = Inl AssertionError"
    using steps by (simp add: load_episode_def keys)
  then have "read_episodes ext sm dir = Inl AssertionError"
    unfolding read_episodes_split [OF j] using prev opened by simp
  then show ?thesis
    using converts_prepare_failed [OF prepare_read_failed] by blast
qed

lemma example_bad_glob: "length (glob_episodes example_bad_dir) = 2"
  by code_simp

lemma example_bad_prev:
  "load_episodes (example_ext 99) example_shape_meta example_bad_dir [0 ..< 1] empty_loader
     = Inr \<lparr>episode_ends = [2], prev_end = 2,
            lowdim_data_dict =
              [(''ee_pos'', [\<lparr>shape = [2, 3], flat = [0, 1, 2, 3, 4, 5]\<rparr>]),
               (''action'', [\<lparr>shape = [2, 8], flat = [0, 1, 2, 0, 3, 4, 5, 6, 7, 8, 9, 0, 10, 11, 12, 13]\<rparr>])],
            rgb_data_dict = [(''cam'', [[example_frame 10, example_frame 11]])]\<rparr>"
  by code_simp

text \<open>The theorem of C6 on the directory whose second episode has a field of width 4.\<close>

theorem shape_mismatch_aborts_conversion_witness:
  "h5py_File example_bad_dir (episode_name 1) = Inr (example_file 1 4 [12])
   \<and> episode_steps (example_file 1 4 [12]) = Inr 1
   \<and> datasets (example_file 1 4 [12]) (data_key ''ee_pos'') = Some (example_actions 1 4)
   \<and> shape (example_actions 1 4) \<noteq> 1 # [3]
   \<and> read_episodes (example_ext 99) example_shape_meta example_bad_dir = Inl AssertionError
   \<and> converts (example_ext 99) example_shape_meta example_bad_dir None None (Inl AssertionError)"
proof -
  let ?fl = "example_file 1 4 [12]"
  have j: "1 < length (glob_episodes example_bad_dir)" by (simp add: example_bad_glob)
  have "episode_name 1 = ''episode_1.hdf5''" by code_simp
  then have opened: "h5py_File example_bad_dir (episode_name 1) = Inr ?fl"
    by (simp add: h5py_File_def example_bad_dir_def)
  have steps: "episode_steps ?fl = Inr 1"
    by (simp add: episode_steps_def example_file_def example_actions_def)
  have keys: "parse_lowdim_keys example_shape_meta @ [''action''] = [] @ ''ee_pos'' # [''action'']"
    by (simp add: parse_lowdim_keys_def example_shape_meta_def obs_type_def)
  have rd: "datasets ?fl (data_key ''ee_pos'') = Some (example_actions 1 4)"
    by (simp add: example_file_def data_key_def)
  have sh: "shape (example_actions 1 4) \<noteq> 1 # [3]" by (simp add: example_actions_def)
  have mismatch: "if ''ee_pos'' = ''action''
       then \<exists>converted sh. convert_actions (rot_forward (example_ext 99)) (float32 (example_ext 99))
                (example_actions 1 4) = Inr converted
              \<and> action example_shape_meta = Some sh \<and> shape converted \<noteq> 1 # sh
       else \<exists>a. map_of (obs example_shape_meta) ''ee_pos'' = Some a
              \<and> shape (example_actions 1 4) \<noteq> 1 # attr_shape a"
    using sh by (simp add: example_shape_meta_def)
  note t = shape_mismatch_aborts_conversion [OF j example_bad_prev opened steps keys _ rd mismatch,
      of "lowdim_data_dict \<lparr>episode_ends = [2], prev_end = 2,
            lowdim_data_dict =
              [(''ee_pos'', [\<lparr>shape = [2, 3], flat = [0, 1, 2, 3, 4, 5]\<rparr>]),
               (''action'', [\<lparr>shape = [2, 8], flat = [0, 1, 2, 0, 3, 4, 5, 6, 7, 8, 9, 0, 10, 11, 12, 13]\<rparr>])],
            rgb_data_dict = [(''cam'', [[example_frame 10, example_frame 11]])]\<rparr>", simplified]
  obtain r where r: "converts (example_ext 99) example_shape_meta example_bad_dir None None r"
    using converts_total by blast
  then have "r = Inl AssertionError" using t by blast
  then show ?thesis using r t opened steps rd sh by simp
qed

lemma example_gap_names:
  "distinct (map fst example_gap_dir)
   \<and> set (glob_episodes example_gap_dir) \<noteq> episode_name ` {..< length (glob_episodes example_gap_dir)}"
proof -
  have g: "glob_episodes example_gap_dir = [''episode_0.hdf5'', ''episode_2.hdf5'']" by code_simp
  have n: "episode_name 0 = ''episode_0.hdf5''" "episode_name (Suc 0) = ''episode_1.hdf5''" by code_simp+
  have "episode_name ` {..< length (glob_episodes example_gap_dir)} = {''episode_0.hdf5'', ''episode_1.hdf5''}"
    by (auto simp: g n lessThan_Suc)
  moreover have "{''episode_0.hdf5'', ''episode_2.hdf5''} \<noteq> {''episode_0.hdf5'', ''episode_1.hdf5''}"
    by (simp add: doubleton_eq_iff)
  moreover have "distinct (map fst example_gap_dir)" by (simp add: example_gap_dir_def)
  ultimately show ?thesis by (simp add: g)
qed

lemma example_gap_first:
  "load_episodes (example_ext 99) example_shape_meta example_gap_dir [0 ..< 1] empty_loader
     = Inr \<lparr>episode_ends = [2], prev_end = 2,
            lowdim_data_dict =
              [(''ee_pos'', [\<lparr>shape = [2, 3], flat = [0, 1, 2, 3, 4, 5]\<rparr>]),
               (''action'', [\<lparr>shape = [2, 8], flat = [0, 1, 2, 0, 3, 4, 5, 6, 7, 8, 9, 0, 10, 11, 12, 13]\<rparr>])],
            rgb_data_dict = [(''cam'', [[example_frame 10, example_frame 11]])]\<rparr>"
  by code_simp

lemma example_gap_present: "map_of example_gap_dir (episode_name 0) \<noteq> None"
  by code_simp

lemma example_gap_count: "length (glob_episodes example_gap_dir) = 2"
  by code_simp

text \<open>
  The theorem of C9 on the directory with the files 0 and 2: the least missing index is 1,
  episode 0 is read, and the file 1 is not found.
\<close>

theorem gap_in_episode_numbering_fails_witness:
  "distinct (map fst example_gap_dir)
   \<and> set (glob_episodes example_gap_dir) \<noteq> episode_name ` {..< length (glob_episodes example_gap_dir)}
   \<and> map_of example_gap_dir (episode_name 1) = None
   \<and> read_episodes (example_ext 99) example_shape_meta example_gap_dir
       = Inl (FileNotFoundError ''episode_1.hdf5'')
   \<and> converts (example_ext 99) example_shape_meta example_gap_dir None None
       (Inl (FileNotFoundError ''episode_1.hdf5''))"
proof -
  from gap_in_episode_numbering_fails [of example_gap_dir "example_ext 99" example_shape_meta] example_gap_names
  obtain j e where j: "j < length (glob_episodes example_gap_dir)"
    and m: "map_of example_gap_dir (episode_name j) = None"
    and e: "read_episodes (example_ext 99) example_shape_meta example_gap_dir = Inl e"
    and k: "case load_episodes (example_ext 99) example_shape_meta example_gap_dir [0 ..< j] empty_loader of
              Inl e' \<Rightarrow> e = e'
            | Inr st \<Rightarrow> e = FileNotFoundError (episode_name j)"
    and c: "\<forall>n_workers max_inflight_tasks r.
       converts (example_ext 99) example_shape_meta example_gap_dir n_workers max_inflight_tasks r
         \<longrightarrow> r = Inl e"
    by blast
  have "j \<noteq> 0"
  proof
    assume "j = 0"
    then show False using m example_gap_present by simp
  qed
  then have j1: "j = 1" using j by (simp add: example_gap_count)
  have n: "episode_name 1 = ''episode_1.hdf5''" by code_simp
  from k [unfolded j1 example_gap_first]
  have "e = FileNotFoundError (episode_name 1)" by simp
  then have "e = FileNotFoundError ''episode_1.hdf5''" by (simp only: n)
  moreover obtain r where r: "converts (example_ext 99) example_shape_meta example_gap_dir None None r"
    using converts_total by blast
  ultimately show ?thesis using c r e m example_gap_names unfolding j1 by auto
qed

lemma example_gap_bad_read:
  "read_episodes (example_ext 99) example_shape_meta example_gap_bad_dir = Inl AssertionError"
  by code_simp

lemma example_gap_bad_names:
  "distinct (map fst example_gap_bad_dir)
   \<and> set (glob_episodes example_gap_bad_dir)
       \<noteq> episode_name ` {..< length (glob_episodes example_gap_bad_dir)}"
proof -
  have g: "glob_episodes example_gap_bad_dir = [''episode_0.hdf5'', ''episode_2.hdf5'']" by code_simp
  have n: "episode_name 0 = ''episode_0.hdf5''" "episode_name (Suc 0) = ''episode_1.hdf5''" by code_simp+
  have "episode_name ` {..< length (glob_episodes example_gap_bad_dir)} = {''episode_0.hdf5'', ''episode_1.hdf5''}"
    by (auto simp: g n lessThan_Suc)
  moreover have "{''episode_0.hdf5'', ''episode_2.hdf5''} \<noteq> {''episode_0.hdf5'', ''episode_1.hdf5''}"
    by (simp add: doubleton_eq_iff)
  moreover have "distinct (map fst example_gap_bad_dir)" by (simp add: example_gap_bad_dir_def)
  ultimately show ?thesis by (simp add: g)
qed

text \<open>
  C9 as stated, with a file-open error whenever the matching files are not numbered from 0
  without a gap, fails at the directory with the files 0 and 2 whose episode 0 has an
  \<^verbatim>\<open>ee_pos\<close> field of width 4 where 3 is declared: the assertion of line 120 fails in episode
  0, before \<^verbatim>\<open>episode_1.hdf5\<close> is opened, and the build ends with \<^verbatim>\<open>AssertionError\<close>.
\<close>

theorem gap_with_shape_mismatch_counterexample:
  "distinct (map fst example_gap_bad_dir)
   \<and> set (glob_episodes example_gap_bad_dir)
       \<noteq> episode_name ` {..< length (glob_episodes example_gap_bad_dir)}
   \<and> read_episodes (example_ext 99) example_shape_meta example_gap_bad_dir = Inl AssertionError
   \<and> converts (example_ext 99) example_shape_meta example_gap_bad_dir None None (Inl AssertionError)
   \<and> \<not> converts (example_ext 99) example_shape_meta example_gap_bad_dir None None
         (Inl (FileNotFoundError ''episode_1.hdf5''))
   \<and> \<not> file_open_error AssertionError"
proof -
  note f = converts_prepare_failed [OF prepare_read_failed [OF example_gap_bad_read]]
  obtain r where r: "converts (example_ext 99) example_shape_meta example_gap_bad_dir None None r"
    using converts_total by blast
  then have "r = Inl AssertionError" by (rule f)
  then have 1: "converts (example_ext 99) example_shape_meta example_gap_bad_dir None None (Inl AssertionError)"
    using r by simp
  have 2: "\<not> converts (example_ext 99) example_shape_meta example_gap_bad_dir None None
         (Inl (FileNotFoundError ''episode_1.hdf5''))"
    using f by fastforce
  show ?thesis using 1 2 example_gap_bad_names example_gap_bad_read by simp
qed

lemma dom_skel: "dom g = {k. skel g k \<noteq> None}"
  by (auto simp: skel_def)

lemma dom_img_copy: "img_copy ext g t = (g', ok) \<Longrightarrow> dom g' = dom g"
proof -
  assume "img_copy ext g t = (g', ok)"
  then have "g' = task_write ext t g" by (simp add: img_copy_split)
  then show ?thesis by (simp add: dom_skel task_write_skel)
qed

lemma pool_exec_errors:
  assumes "pool_exec ext m st r" and "fresh_requires (dom (pool_group st)) (todo st)" and "r = Inl e"
  shows "e = RuntimeError ''Failed to encode image!'' \<or> Raise e \<in> set (todo st)"
  using assms
proof (induction rule: pool_exec.induct)
  case (worker_ok st ts1 t ts2 g' r)
  then show ?case using dom_img_copy [OF worker_ok.hyps(2)] by simp
next
  case (worker_failed st ts1 t ts2 g' r)
  then show ?case using dom_img_copy [OF worker_failed.hyps(2)] by simp
next
  case (require_ok st key sh ops g' r)
  from frame_keys_require [OF require_ok.hyps(2)]
  have "dom g' = insert key (dom (pool_group st))" by auto
  then show ?case using require_ok by auto
next
  case (require_failed st key sh ops e')
  then have "pool_group st key = None" by (auto simp: domIff)
  then show ?case using require_failed.hyps(2) by (simp add: require_dataset_def)
qed auto

lemma fresh_submits:
  "fresh_requires D (map (\<lambda>i. Submit key i (f i)) is @ ops) = fresh_requires D ops"
  by (induction "is") auto

lemma fresh_rgb_ops:
  assumes "fst kd \<notin> D" and "fresh_requires (insert (fst kd) D) ops" 
  shows "fresh_requires D (rgb_ops sm n kd @ ops)"
proof -
  have "fresh_requires D ops"
    using assms(2)
  proof (induction ops arbitrary: D rule: op_targets.induct)
    case (3 key sh ops)
    then show ?case by (auto simp: insert_commute)
  qed auto
  then show ?thesis
    using rgb_ops_cases [of sm n kd] assms by (auto simp: fresh_submits)
qed

lemma fresh_mono: "fresh_requires D ops \<Longrightarrow> D' \<subseteq> D \<Longrightarrow> fresh_requires D' ops"
proof (induction D ops arbitrary: D' rule: fresh_requires.induct)
  case (2 D key sh ops)
  from "2.prems" have "fresh_requires (insert key D) ops" "insert key D' \<subseteq> insert key D" by auto
  from "2.IH" [OF this] "2.prems" show ?case by auto
qed auto

lemma fresh_rgb_program:
  assumes "distinct (map fst d)" and "fst ` set d \<inter> D = {}"
  shows "fresh_requires D (rgb_program sm n d)"
  using assms
proof (induction d arbitrary: D)
  case Nil
  show ?case by (simp add: rgb_program_def)
next
  case (Cons kd d)
  have e: "rgb_program sm n (kd # d) = rgb_ops sm n kd @ rgb_program sm n d"
    by (simp add: rgb_program_def)
  have "distinct (map fst d)" "fst ` set d \<inter> insert (fst kd) D = {}"
    using Cons.prems by auto
  from Cons.IH [OF this] have "fresh_requires (insert (fst kd) D) (rgb_program sm n d)" .
  moreover have "fst kd \<notin> D" using Cons.prems by auto
  ultimately show ?case unfolding e by (intro fresh_rgb_ops)
qed

lemma raised_by_rgb_program:
  "Raise e \<in> set (rgb_program sm n d) \<Longrightarrow> e = ValueError \<or> (\<exists>k. e = KeyError k)"
proof (induction d)
  case Nil
  then show ?case by (simp add: rgb_program_def)
next
  case (Cons kd d)
  have "rgb_program sm n (kd # d) = rgb_ops sm n kd @ rgb_program sm n d"
    by (simp add: rgb_program_def)
  then have "Raise e \<in> set (rgb_ops sm n kd) \<or> Raise e \<in> set (rgb_program sm n d)"
    using Cons.prems by auto
  then show ?case
  proof
    assume r: "Raise e \<in> set (rgb_ops sm n kd)"
    obtain key data where kd: "kd = (key, data)" by (cases kd)
    show ?thesis
    proof (cases "map_of (obs sm) key")
      case None
      then show ?thesis using r by (simp add: rgb_ops_def kd)
    next
      case (Some a)
      show ?thesis
      proof (cases "\<exists>c h w. attr_shape a = [c, h, w]")
        case True
        then obtain c h w where "attr_shape a = [c, h, w]" by blast
        then show ?thesis using r by (auto simp: rgb_ops_def kd Some Let_def)
      next
        case False
        then show ?thesis using r by (simp add: rgb_ops_def kd Some case_triple_other)
      qed
    qed
  next
    assume "Raise e \<in> set (rgb_program sm n d)"
    then show ?thesis by (rule Cons.IH)
  qed
qed

lemma keys_dict_append_set: "fst ` set (dict_append k v d) = insert k (fst ` set d)"
  by (induction k v d rule: dict_append.induct) auto

lemma load_lowdim_keys:
  "load_lowdim ext sm fl n keys d = Inr d' \<Longrightarrow> fst ` set d' \<subseteq> fst ` set d \<union> set keys"
proof (induction keys arbitrary: d)
  case Nil
  then show ?case by simp
next
  case (Cons key keys)
  from Cons.prems obtain d1 where 1: "load_lowdim_key ext sm fl n key d = Inr d1"
    and 2: "load_lowdim ext sm fl n keys d1 = Inr d'" by (auto split: sum.splits)
  from 1 obtain v where "d1 = dict_append key v d"
    by (auto simp: load_lowdim_key_def split: option.splits sum.splits if_splits)
  then have "fst ` set d1 = insert key (fst ` set d)" by (simp add: keys_dict_append_set)
  then show ?case using Cons.IH [OF 2] by auto
qed

lemma load_rgb_key_keys:
  "load_rgb_key ext sm fl key d = Inr d' \<Longrightarrow> fst ` set d' = insert key (fst ` set d)"
proof -
  assume "load_rgb_key ext sm fl key d = Inr d'"
  then have "\<exists>v. d' = dict_append key v d"
    by (auto simp: load_rgb_key_def split: option.splits list.splits sum.splits if_splits)
  then obtain v where "d' = dict_append key v d" ..
  then show ?thesis by (simp only: keys_dict_append_set)
qed

lemma load_rgb_keys:
  "load_rgb ext sm fl keys d = Inr d' \<Longrightarrow> fst ` set d' \<subseteq> fst ` set d \<union> set keys"
proof (induction keys arbitrary: d)
  case Nil
  then show ?case by simp
next
  case (Cons key keys)
  from Cons.prems obtain d1 where 1: "load_rgb_key ext sm fl key d = Inr d1"
    and 2: "load_rgb ext sm fl keys d1 = Inr d'" by (auto split: sum.splits)
  show ?case using Cons.IH [OF 2] load_rgb_key_keys [OF 1] by auto
qed

lemma load_episodes_keys:
  assumes "load_episodes ext sm dir idxs st = Inr st'"
    and "fst ` set (lowdim_data_dict st) \<subseteq> set (parse_lowdim_keys sm) \<union> {''action''}"
    and "fst ` set (rgb_data_dict st) \<subseteq> set (parse_rgb_keys sm)"
  shows "fst ` set (lowdim_data_dict st') \<subseteq> set (parse_lowdim_keys sm) \<union> {''action''}
       \<and> fst ` set (rgb_data_dict st') \<subseteq> set (parse_rgb_keys sm)"
  using assms
proof (induction idxs arbitrary: st)
  case Nil
  then show ?case by simp
next
  case (Cons i idxs)
  from Cons.prems(1) obtain fl st1 where l: "load_episode ext sm fl st = Inr st1"
    and r: "load_episodes ext sm dir idxs st1 = Inr st'"
    by (auto split: sum.splits)
  from l obtain n ld rd where
    a: "load_lowdim ext sm fl n (parse_lowdim_keys sm @ [''action'']) (lowdim_data_dict st) = Inr ld"
    and b: "load_rgb ext sm fl (parse_rgb_keys sm) (rgb_data_dict st) = Inr rd"
    and s: "lowdim_data_dict st1 = ld" "rgb_data_dict st1 = rd"
    by (auto simp: load_episode_def Let_def split: sum.splits)
  have "fst ` set ld \<subseteq> set (parse_lowdim_keys sm) \<union> {''action''}"
    using load_lowdim_keys [OF a] Cons.prems(2) by auto
  moreover have "fst ` set rd \<subseteq> set (parse_rgb_keys sm)"
    using load_rgb_keys [OF b] Cons.prems(3) by auto
  ultimately show ?case using Cons.IH [OF r] s by simp
qed

lemma dom_dump_lowdim: "dump_lowdim d g = Inr g' \<Longrightarrow> dom g' = dom g \<union> fst ` set d"
proof (induction d arbitrary: g)
  case Nil
  then show ?case by simp
next
  case (Cons kd d)
  obtain key data where kd: "kd = (key, data)" by (cases kd)
  from Cons.prems obtain a where r: "dump_lowdim d (g(key \<mapsto> Dense a)) = Inr g'"
    by (auto simp: kd split: sum.splits option.splits)
  from Cons.IH [OF r] show ?case by (auto simp: kd)
qed

lemma parsed_keys_disjoint:
  assumes "distinct (map fst (obs sm))"
  shows "set (parse_rgb_keys sm) \<inter> set (parse_lowdim_keys sm) = {}"
proof (rule ccontr)
  assume "set (parse_rgb_keys sm) \<inter> set (parse_lowdim_keys sm) \<noteq> {}"
  then obtain k where "k \<in> set (parse_rgb_keys sm)" "k \<in> set (parse_lowdim_keys sm)" by blast
  then obtain a b where a: "(k, a) \<in> set (obs sm)" "obs_type a = ''rgb''"
    and b: "(k, b) \<in> set (obs sm)" "obs_type b \<noteq> ''rgb''"
    by (auto simp: parse_rgb_keys_def parse_lowdim_keys_def)
  have "map_of (obs sm) k = Some a" "map_of (obs sm) k = Some b"
    by (rule map_of_is_SomeI [OF assms a(1)], rule map_of_is_SomeI [OF assms b(1)])
  then show False using a(2) b(2) by simp
qed

lemma prepare_fresh:
  assumes p: "prepare ext sm dir = Inr (ends, g, prog)"
    and d: "distinct (map fst (obs sm))" and a: "''action'' \<notin> set (parse_rgb_keys sm)"
  shows "fresh_requires (dom g) prog"
proof -
  from p obtain st where st: "read_episodes ext sm dir = Inr st"
    and g: "dump_lowdim (lowdim_data_dict st) Map.empty = Inr g"
    and pr: "prog = rgb_program sm (last (episode_ends st)) (rgb_data_dict st)"
    by (auto simp: prepare_def Let_def split: sum.splits if_splits)
  have k: "fst ` set (lowdim_data_dict st) \<subseteq> set (parse_lowdim_keys sm) \<union> {''action''}"
    "fst ` set (rgb_data_dict st) \<subseteq> set (parse_rgb_keys sm)"
    using load_episodes_keys [OF st [unfolded read_episodes_def]] by (simp_all add: empty_loader_def)
  have di: "distinct (map fst (rgb_data_dict st))"
    using load_episodes_distinct [OF st [unfolded read_episodes_def]] by (simp add: empty_loader_def)
  have dg: "dom g = fst ` set (lowdim_data_dict st)" using dom_dump_lowdim [OF g] by simp
  have "fst ` set (rgb_data_dict st) \<inter> dom g = {}"
  proof (rule ccontr)
    assume "fst ` set (rgb_data_dict st) \<inter> dom g \<noteq> {}"
    then obtain x where x1: "x \<in> fst ` set (rgb_data_dict st)" and x2: "x \<in> dom g" by blast
    from x1 k(2) have r: "x \<in> set (parse_rgb_keys sm)" by blast
    from x2 dg k(1) have "x \<in> set (parse_lowdim_keys sm) \<or> x = ''action''" by blast
    then show False using r a parsed_keys_disjoint [OF d] by blast
  qed
  from fresh_rgb_program [OF di this] show ?thesis by (simp add: pr)
qed

text \<open>
  For shape metadata whose observation keys are distinct and whose image fields are not
  called \<^verbatim>\<open>action\<close>, every array of the image stage is allocated under a new name: the stage
  fails only with the encode failure or with the exception of an unpacking.
\<close>

lemma image_stage_errors:
  assumes p: "prepare ext sm dir = Inr (ends, g, prog)"
    and d: "distinct (map fst (obs sm))" and a: "''action'' \<notin> set (parse_rgb_keys sm)"
    and r: "pool_exec ext m (initial_pool g prog) (Inl e)"
  shows "e = RuntimeError ''Failed to encode image!'' \<or> e = ValueError \<or> (\<exists>k. e = KeyError k)"
proof -
  have "fresh_requires (dom (pool_group (initial_pool g prog))) (todo (initial_pool g prog))"
    using prepare_fresh [OF p d a] by (simp add: initial_pool_def)
  from pool_exec_errors [OF r this refl]
  have "e = RuntimeError ''Failed to encode image!'' \<or> Raise e \<in> set prog"
    by (simp add: initial_pool_def)
  moreover obtain n dd where "prog = rgb_program sm n dd"
    using p by (auto simp: prepare_def Let_def split: sum.splits if_splits)
  ultimately show ?thesis using raised_by_rgb_program [of e sm n dd] by blast
qed

text \<open>
  C4. Two builds from the same inputs, with any numbers of workers and any caps on the tasks
  in flight (in particular the cap 1 and a higher one), either return the same store or both
  fail: the store does not depend on how the encode tasks are scheduled. The reason is the
  invariant \<open>pool_wf\<close>: no two tasks have the same destination array and frame index, so
  their writes commute (\<open>task_write_commute\<close>). The last two hypotheses say that the shape
  metadata is a dictionary and that no image field is called \<^verbatim>\<open>action\<close>; by
  \<open>image_stage_errors\<close> every array of the image stage is then allocated under a new name.
\<close>

theorem store_independent_of_concurrency:
  assumes "converts ext sm dir n_workers1 max_inflight_tasks1 r1"
    and "converts ext sm dir n_workers2 max_inflight_tasks2 r2"
    and "0 < resolve_workers ext n_workers1" and "0 < resolve_workers ext n_workers2"
    and "distinct (map fst (obs sm))" and "''action'' \<notin> set (parse_rgb_keys sm)"
  shows "(\<exists>s. r1 = Inr s \<and> r2 = Inr s) \<or> ((\<exists>e. r1 = Inl e) \<and> (\<exists>e. r2 = Inl e))"
  using converts_expected [OF assms(1,3)] converts_expected [OF assms(2,4)]
  by (cases "expected_store ext sm dir") auto

lemma img_copy_verifies:
  assumes "img_copy ext g t = (g', True)"
  shows "\<exists>e sh ch. jpeg2k_encode ext (snd (snd t)) = Some e \<and> jpeg2k_decode ext e \<noteq> None
           \<and> g' (fst t) = Some (Frames sh ch) \<and> ch (fst (snd t)) = Some e"
  using assms
  by (cases t) (auto simp: img_copy_def Let_def
      split: option.splits zarray.splits list.splits if_splits)

text \<open>
  C5. An encode task returns \<^verbatim>\<open>True\<close> only when the frame was encoded, the chunk of its index
  holds the encoding, and that chunk was decoded again. If one of the submitted frames cannot
  be encoded, or its encoding cannot be decoded, then every build ends with an exception: no
  store is returned.
\<close>

theorem failed_frame_aborts_build:
  assumes p: "prepare ext sm dir = Inr (ends, g, prog)" and s: "Submit key i frame \<in> set prog"
    and f: "\<forall>e. jpeg2k_encode ext frame = Some e \<longrightarrow> jpeg2k_decode ext e = None"
    and c: "converts ext sm dir n_workers max_inflight_tasks r"
  shows "(\<forall>g0 t g'. img_copy ext g0 t = (g', True) \<longrightarrow>
            (\<exists>e sh ch. jpeg2k_encode ext (snd (snd t)) = Some e \<and> jpeg2k_decode ext e \<noteq> None
               \<and> g' (fst t) = Some (Frames sh ch) \<and> ch (fst (snd t)) = Some e))
       \<and> (\<exists>e. r = Inl e)"
proof
  show "\<forall>g0 t g'. img_copy ext g0 t = (g', True) \<longrightarrow>
            (\<exists>e sh ch. jpeg2k_encode ext (snd (snd t)) = Some e \<and> jpeg2k_decode ext e \<noteq> None
               \<and> g' (fst t) = Some (Frames sh ch) \<and> ch (fst (snd t)) = Some e)"
    using img_copy_verifies by blast
next
  show "\<exists>e. r = Inl e"
    using c
  proof (cases rule: converts.cases)
    case (built ends' g0 prog' g')
    then have "pool_exec ext (resolve_inflight ext n_workers max_inflight_tasks) (initial_pool g prog) (Inr g')"
      using p by simp
    from pool_exec_sequential [OF this prepare_pool_wf [OF p]]
    have "run_ops ext g prog = Some g'" by (simp add: agrees_def outcome_initial split: option.splits)
    from run_ops_submitted [OF this s] f show ?thesis by auto
  qed auto
qed

lemma example_steps_of:
  "list_all2 (\<lambda>k n. steps_of example_dir k = Some n) [0 ..< length (glob_episodes example_dir)] [2, 1]"
  by code_simp

text \<open>The theorem of C2 on the example: step counts 2 and 1, episode ends 2 and 3.\<close>

theorem episode_ends_cumulative_witness:
  "converts (example_ext 99) example_shape_meta example_dir (Some 2) (Some 1) (Inr example_store)
   \<and> meta_episode_ends example_store = [2, 3]
   \<and> steps_of example_dir 0 = Some 2 \<and> steps_of example_dir 1 = Some 1
   \<and> (\<exists>ns. list_all2 (\<lambda>k n. steps_of example_dir k = Some n) [0 ..< length (glob_episodes example_dir)] ns
          \<and> meta_episode_ends example_store = cumsum_from 0 ns
          \<and> length (meta_episode_ends example_store) = length (glob_episodes example_dir)
          \<and> sorted (meta_episode_ends example_store)
          \<and> last (meta_episode_ends example_store) = sum_list ns)"
proof -
  have c: "converts (example_ext 99) example_shape_meta example_dir (Some 2) (Some 1) (Inr example_store)"
    by (rule example_converts) (simp add: resolve_workers_def)
  have s: "steps_of example_dir 0 = Some 2" "steps_of example_dir 1 = Some 1"
    by code_simp+
  from episode_ends_cumulative [OF c] c s show ?thesis
    by (auto simp: example_store_def)
qed

text \<open>
  The theorem of C4 on the example: one worker with the cap 1, and the default number of
  workers with the cap 8, build the same store.
\<close>

theorem store_independent_of_concurrency_witness:
  "converts (example_ext 99) example_shape_meta example_dir (Some 1) (Some 1) (Inr example_store)
   \<and> converts (example_ext 99) example_shape_meta example_dir None (Some 8) (Inr example_store)
   \<and> 0 < resolve_workers (example_ext 99) (Some 1) \<and> 0 < resolve_workers (example_ext 99) None
   \<and> distinct (map fst (obs example_shape_meta))
   \<and> ''action'' \<notin> set (parse_rgb_keys example_shape_meta)
   \<and> (\<exists>s. Inr example_store = (Inr s :: exn + (int, nat ndarray) store))"
proof -
  have w: "0 < resolve_workers (example_ext 99) (Some 1)" "0 < resolve_workers (example_ext 99) None"
    by (simp_all add: resolve_workers_def example_ext_def)
  have m: "distinct (map fst (obs example_shape_meta))"
    "''action'' \<notin> set (parse_rgb_keys example_shape_meta)"
    by (simp_all add: example_shape_meta_def parse_rgb_keys_def obs_type_def)
  have c1: "converts (example_ext 99) example_shape_meta example_dir (Some 1) (Some 1) (Inr example_store)"
    and c2: "converts (example_ext 99) example_shape_meta example_dir None (Some 8) (Inr example_store)"
    by (rule example_converts, rule w)+
  from store_independent_of_concurrency [OF c1 c2 w m] c1 c2 w m show ?thesis by simp
qed

lemma example_failing_frame:
  "Submit ''cam'' 1 (example_frame 11) \<in> set example_program
   \<and> (\<forall>e. jpeg2k_encode (example_ext 11) (example_frame 11) = Some e \<longrightarrow>
          jpeg2k_decode (example_ext 11) e = None)"
  by (simp add: example_program_def example_ext_def example_frame_def)

text \<open>The theorem of C5 on the example, with a codec that cannot encode the second frame.\<close>

theorem failed_frame_aborts_build_witness:
  "prepare (example_ext 11) example_shape_meta example_dir
     = Inr ([2, 3], example_lowdim_group, example_program)
   \<and> Submit ''cam'' 1 (example_frame 11) \<in> set example_program
   \<and> jpeg2k_encode (example_ext 11) (example_frame 11) = None
   \<and> (\<exists>e. converts (example_ext 11) example_shape_meta example_dir None None (Inl e))"
proof -
  obtain r where r: "converts (example_ext 11) example_shape_meta example_dir None None r"
    using converts_total by blast
  from failed_frame_aborts_build [OF example_prepare _ _ r] example_failing_frame
  obtain e where "r = Inl e" by blast
  then show ?thesis using r example_prepare example_failing_frame
    by (auto simp: example_ext_def example_frame_def)
qed

end
